theory Spec2Isabelle
  imports Main "HOL-Library.Multiset" "HOL-Library.Word"
begin

section \<open>The boolean-literal propagation core of constraint\_solver/booleans.cc\<close>

text \<open>
  The C++ objects are modelled as records and every mutation as explicit state passing.
  \<^item> The counters \<open>sum_\<close> (\<open>NumericalRev<int>\<close>) and the bounds \<open>constant_\<close> (\<open>const int\<close>)
    of the two constraint classes are 32-bit words, \<open>int32\<close>: \<open>Incr\<close> is \<open>+ 1\<close> on the
    word, which wraps from \<open>INT_MAX\<close> to \<open>INT_MIN\<close> as the compiled code does, and the
    comparisons \<open>>\<close> and \<open>>=\<close> read both sides as two's complement with \<open>sint\<close>.
  \<^item> \<open>AtomIndex\<close> (an \<open>int\<close> wrapped by \<open>DEFINE_INT_TYPE\<close>) is a mathematical integer:
    a literal is a position in the atom vectors plus one, with a sign, and the store
    computes on it by negation and by adding or subtracting one only.
  \<^item> \<open>IntVar*\<close>, \<open>SumLessConstant*\<close> and \<open>SumTriggerAction*\<close> are addresses (natural
    numbers); the constraint objects live in two heaps, lists indexed by address.
  \<^item> \<open>std::vector<Atom*>\<close> is a list of \<open>Atom option\<close>, \<open>None\<close> being the null pointer
    that \<open>resize\<close> fills new entries with.
  \<^item> \<open>solver()->Fail()\<close> leaves the propagation at once (error \<open>SolverFail\<close>), a failed
    \<open>CHECK\<close> aborts the process (error \<open>CheckFailed\<close>), an out-of-range vector access
    or a dereference of a null or dangling pointer is undefined behaviour (error \<open>BadAccess\<close>).
  \<^item> The element count of an \<open>UnorderedRevArray\<close> and the loop positions are natural
    numbers: the source never takes them below zero except in \<open>Remove\<close> on an empty
    set, which the model treats as an invalid access.
  \<^item> Member names lose their trailing underscore (\<open>actions_\<close> is \<open>atom_actions\<close>), and
    carry the name of their class where two classes use the same name.
  \<^item> The reversible primitives (\<open>NumericalRev\<close>, \<open>RevSwitch\<close>) are plain fields: a
    search branch is a sequence of states, and backtracking returns to an earlier state.
\<close>

type_synonym AtomIndex = int
type_synonym int32 = "32 word"
type_synonym IntVar = nat
type_synonym SumLessConstant_ptr = nat
type_synonym SumTriggerAction_ptr = nat

definition kFailAtom :: AtomIndex where
  "kFailAtom = 0"

datatype error = SolverFail | CheckFailed | BadAccess

subsection \<open>UnorderedRevArray\<close>

record 'a UnorderedRevArray =
  elements :: "'a list"
  num_elements :: nat

definition size_of :: "'a UnorderedRevArray \<Rightarrow> nat" where
  "size_of a = num_elements a"

text \<open>\<open>Element\<close>: the \<open>DCHECK\<close>s on the index, then the vector read.\<close>

definition Element :: "'a UnorderedRevArray \<Rightarrow> nat \<Rightarrow> error + 'a" where
  "Element a i =
     (if \<not> i < num_elements a then Inl CheckFailed
      else if i < length (elements a) then Inr (elements a ! i)
      else Inl BadAccess)"

definition Insert :: "'a UnorderedRevArray \<Rightarrow> 'a \<Rightarrow> 'a UnorderedRevArray" where
  "Insert a elt = a\<lparr>elements := elements a @ [elt], num_elements := num_elements a + 1\<rparr>"

definition SwapTo :: "'a UnorderedRevArray \<Rightarrow> nat \<Rightarrow> nat \<Rightarrow> error + 'a UnorderedRevArray" where
  "SwapTo a current_position next_position =
     (if current_position \<noteq> next_position then
        (if current_position < length (elements a) \<and> next_position < length (elements a) then
           (let next_value = elements a ! next_position in
            Inr (a\<lparr>elements := (elements a)
                      [next_position := elements a ! current_position,
                       current_position := next_value]\<rparr>))
         else Inl BadAccess)
      else Inr a)"

text \<open>
  \<open>Remove\<close> decrements the count and swaps the removed element to the first position
  past the new count. With a count of zero the decrement gives \<open>-1\<close> and the swap reads
  outside the vector.
\<close>

definition Remove :: "'a UnorderedRevArray \<Rightarrow> nat \<Rightarrow> error + 'a UnorderedRevArray" where
  "Remove a position_of_element_to_remove =
     (if num_elements a = 0 then Inl BadAccess
      else SwapTo (a\<lparr>num_elements := num_elements a - 1\<rparr>)
             position_of_element_to_remove (num_elements a - 1))"

function RemoveElement_from ::
  "'a UnorderedRevArray \<Rightarrow> 'a \<Rightarrow> nat \<Rightarrow> error + 'a UnorderedRevArray" where
  "RemoveElement_from a element i =
     (if i < num_elements a then
        (if i < length (elements a) then
           (if elements a ! i = element then Remove a i
            else RemoveElement_from a element (i + 1))
         else Inl BadAccess)
      else Inr a)"
  by pat_completeness auto
termination
  by (relation "measure (\<lambda>(a, e, i). num_elements a - i)") auto

declare RemoveElement_from.simps [simp del]

definition RemoveElement :: "'a UnorderedRevArray \<Rightarrow> 'a \<Rightarrow> error + 'a UnorderedRevArray" where
  "RemoveElement a element = RemoveElement_from a element 0"

definition clear :: "'a UnorderedRevArray \<Rightarrow> 'a UnorderedRevArray" where
  "clear a = a\<lparr>num_elements := 0\<rparr>"

subsection \<open>Atom\<close>

record Atom =
  atom_index :: AtomIndex
  atom_sum_less_constant_constraints :: "SumLessConstant_ptr list"
  atom_sum_trigger_actions_constraints :: "SumTriggerAction_ptr UnorderedRevArray"
  atom_actions :: "AtomIndex list"
  flipped :: bool

definition Atom_Listen_SumLessConstant :: "Atom \<Rightarrow> SumLessConstant_ptr \<Rightarrow> Atom" where
  "Atom_Listen_SumLessConstant a ct =
     a\<lparr>atom_sum_less_constant_constraints := atom_sum_less_constant_constraints a @ [ct]\<rparr>"

definition Atom_Listen_SumTriggerAction :: "Atom \<Rightarrow> SumTriggerAction_ptr \<Rightarrow> Atom" where
  "Atom_Listen_SumTriggerAction a ct =
     a\<lparr>atom_sum_trigger_actions_constraints :=
          Insert (atom_sum_trigger_actions_constraints a) ct\<rparr>"

definition Atom_StopListening :: "Atom \<Rightarrow> SumTriggerAction_ptr \<Rightarrow> error + Atom" where
  "Atom_StopListening a ct =
     (case RemoveElement (atom_sum_trigger_actions_constraints a) ct of
        Inl e \<Rightarrow> Inl e
      | Inr arr \<Rightarrow> Inr (a\<lparr>atom_sum_trigger_actions_constraints := arr\<rparr>))"

definition Atom_AddFlipAction :: "Atom \<Rightarrow> AtomIndex \<Rightarrow> Atom" where
  "Atom_AddFlipAction a action = a\<lparr>atom_actions := atom_actions a @ [action]\<rparr>"

definition Atom_IsFlipped :: "Atom \<Rightarrow> bool" where
  "Atom_IsFlipped a = flipped a"

subsection \<open>The cardinality constraints' data\<close>

record SumLessConstant =
  slc_vars :: "AtomIndex list"
  slc_constant :: int32
  slc_sum :: int32

record SumTriggerAction =
  sta_vars :: "AtomIndex list"
  sta_constant :: int32
  sta_actions :: "AtomIndex list"
  sta_sum :: int32

subsection \<open>Store\<close>

record Store =
  indices :: "IntVar list"
  true_atoms :: "Atom option list"
  false_atoms :: "Atom option list"
  sum_less_constant_constraints :: "SumLessConstant_ptr list"
  sum_trigger_actions_constraints :: "SumTriggerAction_ptr list"

text \<open>The address of an \<open>Atom\<close>: the vector it is stored in and its position there.\<close>

datatype atom_ref = TrueAtom nat | FalseAtom nat

fun atom_at :: "Store \<Rightarrow> atom_ref \<Rightarrow> Atom option" where
  "atom_at st (TrueAtom i) = (if i < length (true_atoms st) then true_atoms st ! i else None)"
| "atom_at st (FalseAtom i) = (if i < length (false_atoms st) then false_atoms st ! i else None)"

fun put_atom :: "Store \<Rightarrow> atom_ref \<Rightarrow> Atom \<Rightarrow> Store" where
  "put_atom st (TrueAtom i) a = st\<lparr>true_atoms := (true_atoms st)[i := Some a]\<rparr>"
| "put_atom st (FalseAtom i) a = st\<lparr>false_atoms := (false_atoms st)[i := Some a]\<rparr>"

fun index_from :: "IntVar list \<Rightarrow> IntVar \<Rightarrow> nat \<Rightarrow> nat option" where
  "index_from [] v k = None"
| "index_from (x # xs) v k = (if x = v then Some k else index_from xs v (k + 1))"

text \<open>
  Modelled from the spec: \<open>VectorMap<IntVar*>::Add\<close> (util/vector\_map.h) is not part of
  the source under study. A variable gets a dense slot on first reference, stable
  thereafter: \<open>Add\<close> returns the position of a known element, and appends a new one.
\<close>

definition VectorMap_Add :: "IntVar list \<Rightarrow> IntVar \<Rightarrow> nat \<times> IntVar list" where
  "VectorMap_Add list element =
     (case index_from list element 0 of
        Some current_index \<Rightarrow> (current_index, list)
      | None \<Rightarrow> (length list, list @ [element]))"

text \<open>\<open>std::vector::resize\<close> for a vector of pointers: truncate, or pad with null.\<close>

definition resize :: "nat \<Rightarrow> 'a option list \<Rightarrow> 'a option list" where
  "resize n xs = take n xs @ replicate (n - length xs) None"

definition TrueIndex :: "Store \<Rightarrow> IntVar \<Rightarrow> AtomIndex \<times> Store" where
  "TrueIndex st var =
     (let (raw_index, ix) = VectorMap_Add (indices st) var;
          st1 = st\<lparr>indices := ix\<rparr>;
          st2 = (if raw_index \<ge> length (true_atoms st1)
                 then st1\<lparr>true_atoms := resize raw_index (true_atoms st1),
                          false_atoms := resize raw_index (false_atoms st1)\<rparr>
                 else st1)
      in (1 + int raw_index, st2))"

definition FalseIndex :: "Store \<Rightarrow> IntVar \<Rightarrow> AtomIndex \<times> Store" where
  "FalseIndex st var = (let (a, st') = TrueIndex st var in (- a, st'))"

definition Index :: "Store \<Rightarrow> IntVar \<Rightarrow> bool \<Rightarrow> AtomIndex \<times> Store" where
  "Index st var negated = (if negated then FalseIndex st var else TrueIndex st var)"

text \<open>
  \<open>FindAtom\<close>: the \<open>CHECK_NE\<close>, then the read of the vector selected by the sign. The
  result is the address of the slot read; the slot may hold a null pointer.
\<close>

definition FindAtom :: "Store \<Rightarrow> AtomIndex \<Rightarrow> error + atom_ref" where
  "FindAtom st atom =
     (if atom = kFailAtom then Inl CheckFailed
      else if atom > kFailAtom then
        (if nat (atom - 1) < length (true_atoms st) then Inr (TrueAtom (nat (atom - 1)))
         else Inl BadAccess)
      else
        (if nat (- 1 - atom) < length (false_atoms st) then Inr (FalseAtom (nat (- 1 - atom)))
         else Inl BadAccess))"

text \<open>\<open>FindAtom(atom)->\<close>: the atom found, dereferenced.\<close>

definition FindAtom_deref :: "Store \<Rightarrow> AtomIndex \<Rightarrow> error + atom_ref \<times> Atom" where
  "FindAtom_deref st atom =
     (case FindAtom st atom of
        Inl e \<Rightarrow> Inl e
      | Inr r \<Rightarrow> (case atom_at st r of None \<Rightarrow> Inl BadAccess | Some a \<Rightarrow> Inr (r, a)))"

definition Store_IsFlipped :: "Store \<Rightarrow> AtomIndex \<Rightarrow> error + bool" where
  "Store_IsFlipped st atom =
     (if atom = kFailAtom then Inr False
      else (case FindAtom_deref st atom of
              Inl e \<Rightarrow> Inl e
            | Inr (r, a) \<Rightarrow> Inr (Atom_IsFlipped a)))"

definition Store_Listen_SumLessConstant ::
  "Store \<Rightarrow> AtomIndex \<Rightarrow> SumLessConstant_ptr \<Rightarrow> error + Store" where
  "Store_Listen_SumLessConstant st atom ct =
     (case FindAtom_deref st atom of
        Inl e \<Rightarrow> Inl e
      | Inr (r, a) \<Rightarrow> Inr (put_atom st r (Atom_Listen_SumLessConstant a ct)))"

definition Store_Listen_SumTriggerAction ::
  "Store \<Rightarrow> AtomIndex \<Rightarrow> SumTriggerAction_ptr \<Rightarrow> error + Store" where
  "Store_Listen_SumTriggerAction st atom ct =
     (case FindAtom_deref st atom of
        Inl e \<Rightarrow> Inl e
      | Inr (r, a) \<Rightarrow> Inr (put_atom st r (Atom_Listen_SumTriggerAction a ct)))"

definition Store_StopListening ::
  "Store \<Rightarrow> AtomIndex \<Rightarrow> SumTriggerAction_ptr \<Rightarrow> error + Store" where
  "Store_StopListening st atom ct =
     (case FindAtom_deref st atom of
        Inl e \<Rightarrow> Inl e
      | Inr (r, a) \<Rightarrow>
          (case Atom_StopListening a ct of
             Inl e \<Rightarrow> Inl e
           | Inr a' \<Rightarrow> Inr (put_atom st r a')))"

definition Store_AddFlipAction :: "Store \<Rightarrow> AtomIndex \<Rightarrow> AtomIndex \<Rightarrow> error + Store" where
  "Store_AddFlipAction st source destination =
     (case FindAtom_deref st source of
        Inl e \<Rightarrow> Inl e
      | Inr (r, a) \<Rightarrow> Inr (put_atom st r (Atom_AddFlipAction a destination)))"

definition Register_SumLessConstant :: "Store \<Rightarrow> SumLessConstant_ptr \<Rightarrow> Store" where
  "Register_SumLessConstant st ct =
     st\<lparr>sum_less_constant_constraints := sum_less_constant_constraints st @ [ct]\<rparr>"

definition Register_SumTriggerAction :: "Store \<Rightarrow> SumTriggerAction_ptr \<Rightarrow> Store" where
  "Register_SumTriggerAction st ct =
     st\<lparr>sum_trigger_actions_constraints := sum_trigger_actions_constraints st @ [ct]\<rparr>"

subsection \<open>The flip cascade\<close>

text \<open>
  The memory the cascade works on: the store, and the heaps holding the constraint
  objects that the atoms' listener lists point to.
\<close>

record state =
  store :: Store
  slc_heap :: "SumLessConstant list"
  sta_heap :: "SumTriggerAction list"

definition slc_at :: "state \<Rightarrow> SumLessConstant_ptr \<Rightarrow> SumLessConstant option" where
  "slc_at s p = (if p < length (slc_heap s) then Some (slc_heap s ! p) else None)"

definition sta_at :: "state \<Rightarrow> SumTriggerAction_ptr \<Rightarrow> SumTriggerAction option" where
  "sta_at s p = (if p < length (sta_heap s) then Some (sta_heap s ! p) else None)"

definition put_slc :: "state \<Rightarrow> SumLessConstant_ptr \<Rightarrow> SumLessConstant \<Rightarrow> state" where
  "put_slc s p c = s\<lparr>slc_heap := (slc_heap s)[p := c]\<rparr>"

definition put_sta :: "state \<Rightarrow> SumTriggerAction_ptr \<Rightarrow> SumTriggerAction \<Rightarrow> state" where
  "put_sta s p t = s\<lparr>sta_heap := (sta_heap s)[p := t]\<rparr>"

text \<open>
  A call either leaves through \<open>Fail()\<close>, a failed \<open>CHECK\<close> or an invalid access (\<open>Inl\<close>,
  with the state reached at that point), or returns (\<open>Inr\<close>).
\<close>

type_synonym outcome = "error \<times> state + state"

definition and_then :: "outcome option \<Rightarrow> (state \<Rightarrow> outcome option) \<Rightarrow> outcome option" where
  "and_then r k = (case r of None \<Rightarrow> None | Some (Inl e) \<Rightarrow> Some (Inl e) | Some (Inr s) \<Rightarrow> k s)"

text \<open>
  \<open>SumTriggerAction::StopListening\<close>: the loop over \<open>vars_\<close>, from position \<open>i\<close>; each
  round goes through \<open>Store::StopListening\<close>, which changes one atom and no constraint.
\<close>

function SumTriggerAction_StopListening_from ::
  "state \<Rightarrow> SumTriggerAction_ptr \<Rightarrow> nat \<Rightarrow> outcome" where
  "SumTriggerAction_StopListening_from s this i =
     (case sta_at s this of
        None \<Rightarrow> Inl (BadAccess, s)
      | Some t \<Rightarrow>
          (if i < length (sta_vars t) then
             (case Store_StopListening (store s) (sta_vars t ! i) this of
                Inl e \<Rightarrow> Inl (e, s)
              | Inr st' \<Rightarrow> SumTriggerAction_StopListening_from (s\<lparr>store := st'\<rparr>) this (i + 1))
           else Inr s))"
  by pat_completeness auto
termination
  by (relation "measure (\<lambda>(s, this, i). case sta_at s this of None \<Rightarrow> 0
                                          | Some t \<Rightarrow> length (sta_vars t) - i)")
     (auto simp: sta_at_def)

declare SumTriggerAction_StopListening_from.simps [simp del]

definition SumTriggerAction_StopListening :: "state \<Rightarrow> SumTriggerAction_ptr \<Rightarrow> outcome" where
  "SumTriggerAction_StopListening s this = SumTriggerAction_StopListening_from s this 0"

text \<open>
  The cascade is mutually recursive across \<open>Store::Flip\<close>, \<open>Atom::Flip\<close> and the two
  constraints' \<open>Flip\<close>. It is one interpreter \<open>run\<close> over the calls of the source, a
  \<open>call\<close> naming the function entered and its arguments; the three loops of
  \<open>Atom::Flip\<close> and the loops of \<open>UnflipAllPending\<close> and \<open>FlipAllAction\<close> are calls
  that carry the loop position \<open>i\<close>. The first argument of \<open>run\<close> is fuel: every call
  and every round of a loop uses one unit, and \<open>None\<close> means that the fuel ran out.
  Each loop reads its bound and its element from the current state at every round, as
  the source does (\<open>i < actions_.size()\<close>, \<open>actions_[i]\<close>).
  The local \<open>count\<close> of \<open>UnflipAllPending\<close> is written and never read (the source ends
  in the comment \<open>// Check count.\<close>), so it does not appear.
\<close>

datatype call =
    Store_Flip_call AtomIndex
  | Atom_Flip_call atom_ref
  | Atom_Flip_actions_call atom_ref nat
  | Atom_Flip_sum_less_call atom_ref nat
  | Atom_Flip_sum_trigger_call atom_ref nat
  | SumLessConstant_Flip_call SumLessConstant_ptr AtomIndex
  | UnflipAllPending_call SumLessConstant_ptr nat
  | SumTriggerAction_Flip_call SumTriggerAction_ptr AtomIndex
  | FlipAllAction_call SumTriggerAction_ptr nat

fun run :: "nat \<Rightarrow> state \<Rightarrow> call \<Rightarrow> outcome option" where
  "run 0 s c = None"
| "run (Suc n) s (Store_Flip_call atom) =
     (if atom = kFailAtom \<or> Store_IsFlipped (store s) (- atom) = Inr True
      then Some (Inl (SolverFail, s))
      else (case Store_IsFlipped (store s) (- atom) of
              Inl e \<Rightarrow> Some (Inl (e, s))
            | Inr b \<Rightarrow>
                (case FindAtom (store s) atom of
                   Inl e \<Rightarrow> Some (Inl (e, s))
                 | Inr r \<Rightarrow> run n s (Atom_Flip_call r))))"
| "run (Suc n) s (Atom_Flip_call this) =
     (case atom_at (store s) this of
        None \<Rightarrow> Some (Inl (BadAccess, s))
      | Some a \<Rightarrow>
          (if flipped a then Some (Inl (CheckFailed, s))
           else and_then (run n (s\<lparr>store := put_atom (store s) this (a\<lparr>flipped := True\<rparr>)\<rparr>)
                            (Atom_Flip_actions_call this 0))
                  (\<lambda>s1. and_then (run n s1 (Atom_Flip_sum_less_call this 0))
                  (\<lambda>s2. run n s2 (Atom_Flip_sum_trigger_call this 0)))))"
| "run (Suc n) s (Atom_Flip_actions_call this i) =
     (case atom_at (store s) this of
        None \<Rightarrow> Some (Inl (BadAccess, s))
      | Some a \<Rightarrow>
          (if i < length (atom_actions a) then
             and_then (run n s (Store_Flip_call (atom_actions a ! i)))
               (\<lambda>s'. run n s' (Atom_Flip_actions_call this (i + 1)))
           else Some (Inr s)))"
| "run (Suc n) s (Atom_Flip_sum_less_call this i) =
     (case atom_at (store s) this of
        None \<Rightarrow> Some (Inl (BadAccess, s))
      | Some a \<Rightarrow>
          (if i < length (atom_sum_less_constant_constraints a) then
             and_then (run n s (SumLessConstant_Flip_call
                                  (atom_sum_less_constant_constraints a ! i) (atom_index a)))
               (\<lambda>s'. run n s' (Atom_Flip_sum_less_call this (i + 1)))
           else Some (Inr s)))"
| "run (Suc n) s (Atom_Flip_sum_trigger_call this i) =
     (case atom_at (store s) this of
        None \<Rightarrow> Some (Inl (BadAccess, s))
      | Some a \<Rightarrow>
          (if i < size_of (atom_sum_trigger_actions_constraints a) then
             (case Element (atom_sum_trigger_actions_constraints a) i of
                Inl e \<Rightarrow> Some (Inl (e, s))
              | Inr ct \<Rightarrow>
                  and_then (run n s (SumTriggerAction_Flip_call ct (atom_index a)))
                    (\<lambda>s'. run n s' (Atom_Flip_sum_trigger_call this (i + 1))))
           else Some (Inr s)))"
| "run (Suc n) s (SumLessConstant_Flip_call this index) =
     (case slc_at s this of
        None \<Rightarrow> Some (Inl (BadAccess, s))
      | Some c \<Rightarrow>
          (let s1 = put_slc s this (c\<lparr>slc_sum := slc_sum c + 1\<rparr>) in
           if sint (slc_sum c + 1) > sint (slc_constant c) then Some (Inl (SolverFail, s1))
           else if slc_sum c + 1 = slc_constant c then run n s1 (UnflipAllPending_call this 0)
           else Some (Inr s1)))"
| "run (Suc n) s (UnflipAllPending_call this i) =
     (case slc_at s this of
        None \<Rightarrow> Some (Inl (BadAccess, s))
      | Some c \<Rightarrow>
          (if i < length (slc_vars c) then
             (case Store_IsFlipped (store s) (slc_vars c ! i) of
                Inl e \<Rightarrow> Some (Inl (e, s))
              | Inr True \<Rightarrow> run n s (UnflipAllPending_call this (i + 1))
              | Inr False \<Rightarrow>
                  and_then (run n s (Store_Flip_call (- (slc_vars c ! i))))
                    (\<lambda>s'. run n s' (UnflipAllPending_call this (i + 1))))
           else Some (Inr s)))"
| "run (Suc n) s (SumTriggerAction_Flip_call this index) =
     (case sta_at s this of
        None \<Rightarrow> Some (Inl (BadAccess, s))
      | Some t \<Rightarrow>
          (let s1 = put_sta s this (t\<lparr>sta_sum := sta_sum t + 1\<rparr>) in
           if sint (sta_sum t + 1) \<ge> sint (sta_constant t) then
             (case SumTriggerAction_StopListening s1 this of
                Inl e \<Rightarrow> Some (Inl e)
              | Inr s2 \<Rightarrow> run n s2 (FlipAllAction_call this 0))
           else Some (Inr s1)))"
| "run (Suc n) s (FlipAllAction_call this i) =
     (case sta_at s this of
        None \<Rightarrow> Some (Inl (BadAccess, s))
      | Some t \<Rightarrow>
          (if i < length (sta_actions t) then
             and_then (run n s (Store_Flip_call (sta_actions t ! i)))
               (\<lambda>s'. run n s' (FlipAllAction_call this (i + 1)))
           else Some (Inr s)))"

text \<open>The functions of the source, as entries into the interpreter.\<close>

definition Store_Flip :: "nat \<Rightarrow> state \<Rightarrow> AtomIndex \<Rightarrow> outcome option" where
  "Store_Flip n s atom = run n s (Store_Flip_call atom)"

definition Atom_Flip :: "nat \<Rightarrow> state \<Rightarrow> atom_ref \<Rightarrow> outcome option" where
  "Atom_Flip n s this = run n s (Atom_Flip_call this)"

definition SumLessConstant_Flip ::
  "nat \<Rightarrow> state \<Rightarrow> SumLessConstant_ptr \<Rightarrow> AtomIndex \<Rightarrow> outcome option" where
  "SumLessConstant_Flip n s this index = run n s (SumLessConstant_Flip_call this index)"

definition UnflipAllPending :: "nat \<Rightarrow> state \<Rightarrow> SumLessConstant_ptr \<Rightarrow> outcome option" where
  "UnflipAllPending n s this = run n s (UnflipAllPending_call this 0)"

definition SumTriggerAction_Flip ::
  "nat \<Rightarrow> state \<Rightarrow> SumTriggerAction_ptr \<Rightarrow> AtomIndex \<Rightarrow> outcome option" where
  "SumTriggerAction_Flip n s this index = run n s (SumTriggerAction_Flip_call this index)"

definition FlipAllAction :: "nat \<Rightarrow> state \<Rightarrow> SumTriggerAction_ptr \<Rightarrow> outcome option" where
  "FlipAllAction n s this = run n s (FlipAllAction_call this 0)"

text \<open>
  \<open>Store::VariableBound\<close>; \<open>var_Min\<close> is the host's reading of a variable's lower bound.
\<close>

definition VariableBound :: "(IntVar \<Rightarrow> int) \<Rightarrow> nat \<Rightarrow> state \<Rightarrow> nat \<Rightarrow> outcome option" where
  "VariableBound var_Min n s index =
     (if index < length (indices (store s)) then
        (if var_Min (indices (store s) ! index) = 0 then Store_Flip n s (- 1 - int index)
         else Store_Flip n s (1 + int index))
      else Some (Inl (BadAccess, s)))"

definition final_state :: "outcome \<Rightarrow> state" where
  "final_state out = (case out of Inl (e, s) \<Rightarrow> s | Inr s \<Rightarrow> s)"

definition failure :: "outcome \<Rightarrow> error option" where
  "failure out = (case out of Inl (e, s) \<Rightarrow> Some e | Inr s \<Rightarrow> None)"

subsection \<open>Posting\<close>

primrec SumLessConstant_Post_from ::
  "Store \<Rightarrow> SumLessConstant_ptr \<Rightarrow> AtomIndex list \<Rightarrow> error + Store" where
  "SumLessConstant_Post_from st this [] = Inr st"
| "SumLessConstant_Post_from st this (v # vs) =
     (case Store_Listen_SumLessConstant st v this of
        Inl e \<Rightarrow> Inl e
      | Inr st' \<Rightarrow> SumLessConstant_Post_from st' this vs)"

definition SumLessConstant_Post :: "state \<Rightarrow> SumLessConstant_ptr \<Rightarrow> error + state" where
  "SumLessConstant_Post s this =
     (case slc_at s this of
        None \<Rightarrow> Inl BadAccess
      | Some c \<Rightarrow>
          (case SumLessConstant_Post_from (Register_SumLessConstant (store s) this) this
                  (slc_vars c) of
             Inl e \<Rightarrow> Inl e
           | Inr st \<Rightarrow> Inr (s\<lparr>store := st\<rparr>)))"

primrec SumTriggerAction_Post_from ::
  "Store \<Rightarrow> SumTriggerAction_ptr \<Rightarrow> AtomIndex list \<Rightarrow> error + Store" where
  "SumTriggerAction_Post_from st this [] = Inr st"
| "SumTriggerAction_Post_from st this (v # vs) =
     (case Store_Listen_SumTriggerAction st v this of
        Inl e \<Rightarrow> Inl e
      | Inr st' \<Rightarrow> SumTriggerAction_Post_from st' this vs)"

definition SumTriggerAction_Post :: "state \<Rightarrow> SumTriggerAction_ptr \<Rightarrow> error + state" where
  "SumTriggerAction_Post s this =
     (case sta_at s this of
        None \<Rightarrow> Inl BadAccess
      | Some t \<Rightarrow>
          (case SumTriggerAction_Post_from (Register_SumTriggerAction (store s) this) this
                  (sta_vars t) of
             Inl e \<Rightarrow> Inl e
           | Inr st \<Rightarrow> Inr (s\<lparr>store := st\<rparr>)))"

text \<open>
  The posting helpers. \<open>IsBooleanVar\<close> is the host's classifier: \<open>None\<close> when the
  expression is not a boolean literal, else the variable and whether it is negated.
\<close>

definition AddBoolEq ::
  "(IntVar \<Rightarrow> (IntVar \<times> bool) option) \<Rightarrow> Store \<Rightarrow> IntVar \<Rightarrow> IntVar \<Rightarrow> error + bool \<times> Store" where
  "AddBoolEq IsBooleanVar st left right =
     (case IsBooleanVar left of
        None \<Rightarrow> Inr (False, st)
      | Some (left_var, left_negated) \<Rightarrow>
          (case IsBooleanVar right of
             None \<Rightarrow> Inr (False, st)
           | Some (right_var, right_negated) \<Rightarrow>
               (let (left_atom, st1) = Index st left_var left_negated;
                    (right_atom, st2) = Index st1 right_var right_negated
                in (case Store_AddFlipAction st2 left_atom right_atom of
                      Inl e \<Rightarrow> Inl e
                    | Inr st3 \<Rightarrow>
                   (case Store_AddFlipAction st3 right_atom left_atom of
                      Inl e \<Rightarrow> Inl e
                    | Inr st4 \<Rightarrow>
                   (case Store_AddFlipAction st4 (- left_atom) (- right_atom) of
                      Inl e \<Rightarrow> Inl e
                    | Inr st5 \<Rightarrow>
                   (case Store_AddFlipAction st5 (- right_atom) (- left_atom) of
                      Inl e \<Rightarrow> Inl e
                    | Inr st6 \<Rightarrow> Inr (True, st6))))))))"

definition AddBoolLe ::
  "(IntVar \<Rightarrow> (IntVar \<times> bool) option) \<Rightarrow> Store \<Rightarrow> IntVar \<Rightarrow> IntVar \<Rightarrow> error + bool \<times> Store" where
  "AddBoolLe IsBooleanVar st left right =
     (case IsBooleanVar left of
        None \<Rightarrow> Inr (False, st)
      | Some (left_var, left_negated) \<Rightarrow>
          (case IsBooleanVar right of
             None \<Rightarrow> Inr (False, st)
           | Some (right_var, right_negated) \<Rightarrow>
               (let (left_atom, st1) = Index st left_var left_negated;
                    (right_atom, st2) = Index st1 right_var right_negated
                in (case Store_AddFlipAction st2 left_atom right_atom of
                      Inl e \<Rightarrow> Inl e
                    | Inr st3 \<Rightarrow>
                   (case Store_AddFlipAction st3 (- right_atom) (- left_atom) of
                      Inl e \<Rightarrow> Inl e
                    | Inr st4 \<Rightarrow> Inr (True, st4))))))"

definition AddBoolNot ::
  "(IntVar \<Rightarrow> (IntVar \<times> bool) option) \<Rightarrow> Store \<Rightarrow> IntVar \<Rightarrow> IntVar \<Rightarrow> error + bool \<times> Store" where
  "AddBoolNot IsBooleanVar st left right =
     (case IsBooleanVar left of
        None \<Rightarrow> Inr (False, st)
      | Some (left_var, left_negated) \<Rightarrow>
          (case IsBooleanVar right of
             None \<Rightarrow> Inr (False, st)
           | Some (right_var, right_negated) \<Rightarrow>
               (let (left_atom, st1) = Index st left_var left_negated;
                    (right_atom, st2) = Index st1 right_var right_negated
                in (case Store_AddFlipAction st2 left_atom (- right_atom) of
                      Inl e \<Rightarrow> Inl e
                    | Inr st3 \<Rightarrow>
                   (case Store_AddFlipAction st3 right_atom (- left_atom) of
                      Inl e \<Rightarrow> Inl e
                    | Inr st4 \<Rightarrow>
                   (case Store_AddFlipAction st4 (- left_atom) right_atom of
                      Inl e \<Rightarrow> Inl e
                    | Inr st5 \<Rightarrow>
                   (case Store_AddFlipAction st5 (- right_atom) left_atom of
                      Inl e \<Rightarrow> Inl e
                    | Inr st6 \<Rightarrow> Inr (True, st6))))))))"

subsection \<open>Constructors and the states used in the examples\<close>

definition UnorderedRevArray_new :: "'a UnorderedRevArray" where
  "UnorderedRevArray_new = \<lparr>elements = [], num_elements = 0\<rparr>"

definition Atom_new :: "AtomIndex \<Rightarrow> Atom" where
  "Atom_new index =
     \<lparr>atom_index = index, atom_sum_less_constant_constraints = [],
      atom_sum_trigger_actions_constraints = UnorderedRevArray_new,
      atom_actions = [], flipped = False\<rparr>"

definition SumLessConstant_new :: "AtomIndex list \<Rightarrow> int32 \<Rightarrow> SumLessConstant" where
  "SumLessConstant_new vars constant = \<lparr>slc_vars = vars, slc_constant = constant, slc_sum = 0\<rparr>"

definition SumTriggerAction_new ::
  "AtomIndex list \<Rightarrow> int32 \<Rightarrow> AtomIndex list \<Rightarrow> SumTriggerAction" where
  "SumTriggerAction_new vars constant actions =
     \<lparr>sta_vars = vars, sta_constant = constant, sta_actions = actions, sta_sum = 0\<rparr>"

definition Store_new :: Store where
  "Store_new =
     \<lparr>indices = [], true_atoms = [], false_atoms = [],
      sum_less_constant_constraints = [], sum_trigger_actions_constraints = []\<rparr>"

text \<open>
  No function of the source creates an \<open>Atom\<close>. The examples that need atoms start from
  a store whose slots hold them: the variables \<open>vs\<close> known, and for the variable in slot
  \<open>i\<close> a fresh atom for each polarity, with the literal ids \<open>1 + i\<close> and \<open>- (1 + i)\<close>.
\<close>

definition Store_with_atoms :: "IntVar list \<Rightarrow> Store" where
  "Store_with_atoms vs =
     \<lparr>indices = vs,
      true_atoms = map (\<lambda>i. Some (Atom_new (1 + int i))) [0..<length vs],
      false_atoms = map (\<lambda>i. Some (Atom_new (- 1 - int i))) [0..<length vs],
      sum_less_constant_constraints = [], sum_trigger_actions_constraints = []\<rparr>"

text \<open>The classifier that takes every expression for a plain boolean variable.\<close>

definition plain_literal :: "IntVar \<Rightarrow> (IntVar \<times> bool) option" where
  "plain_literal e = Some (e, False)"

subsection \<open>Predicates on states\<close>

text \<open>The trigger constraints listening on an atom: the first \<open>num_elements_\<close> elements.\<close>

definition listening :: "Atom \<Rightarrow> SumTriggerAction_ptr list" where
  "listening a =
     take (num_elements (atom_sum_trigger_actions_constraints a))
          (elements (atom_sum_trigger_actions_constraints a))"

definition atom_refs :: "Store \<Rightarrow> atom_ref list" where
  "atom_refs st =
     map TrueAtom [0..<length (true_atoms st)] @ map FalseAtom [0..<length (false_atoms st)]"

text \<open>The trigger constraint \<open>p\<close> listens on no atom of the store.\<close>

definition not_listening :: "state \<Rightarrow> SumTriggerAction_ptr \<Rightarrow> bool" where
  "not_listening s p =
     (\<forall>r \<in> set (atom_refs (store s)).
        case atom_at (store s) r of None \<Rightarrow> True | Some a \<Rightarrow> p \<notin> set (listening a))"

text \<open>
  The trigger constraint \<open>p\<close> listens on an atom at most as often as its members name
  that atom: what \<open>SumTriggerAction::Post\<close> sets up, one \<open>Listen\<close> for each member.
\<close>

definition listens_as_posted :: "state \<Rightarrow> SumTriggerAction_ptr \<Rightarrow> bool" where
  "listens_as_posted s p =
     (case sta_at s p of
        None \<Rightarrow> False
      | Some t \<Rightarrow>
          (\<forall>r \<in> set (atom_refs (store s)).
             case atom_at (store s) r of
               None \<Rightarrow> True
             | Some a \<Rightarrow>
                 count_list (listening a) p
                   \<le> length (filter (\<lambda>v. FindAtom (store s) v = Inr r) (sta_vars t))))"

text \<open>The trigger constraint \<open>p\<close> has never been inserted into a listener set.\<close>

definition never_listened :: "state \<Rightarrow> SumTriggerAction_ptr \<Rightarrow> bool" where
  "never_listened s p =
     (\<forall>r \<in> set (atom_refs (store s)).
        case atom_at (store s) r of
          None \<Rightarrow> True
        | Some a \<Rightarrow> p \<notin> set (elements (atom_sum_trigger_actions_constraints a)))"

text \<open>No slot has both its atoms flipped.\<close>

definition is_flipped :: "Atom option \<Rightarrow> bool" where
  "is_flipped ao = (case ao of None \<Rightarrow> False | Some a \<Rightarrow> flipped a)"

definition consistent :: "Store \<Rightarrow> bool" where
  "consistent st =
     list_all (\<lambda>(t, f). \<not> (is_flipped t \<and> is_flipped f)) (zip (true_atoms st) (false_atoms st))"

text \<open>The number of members of a \<open>SumLessConstant\<close> that are flipped.\<close>

definition flipped_members :: "state \<Rightarrow> SumLessConstant_ptr \<Rightarrow> nat" where
  "flipped_members s this =
     (case slc_at s this of
        None \<Rightarrow> 0
      | Some c \<Rightarrow> length (filter (\<lambda>v. Store_IsFlipped (store s) v = Inr True) (slc_vars c)))"

text \<open>
  What the only call site of a function guarantees on entry: \<open>Atom::Flip\<close> is entered from
  \<open>Store::Flip\<close> alone, after its test, and \<open>SumTriggerAction::Flip\<close> from the third loop
  of \<open>Atom::Flip\<close> alone, on a constraint listening there.
\<close>

fun entered_from :: "state \<Rightarrow> call \<Rightarrow> bool" where
  "entered_from s (Atom_Flip_call this) =
     (\<exists>atom. atom \<noteq> kFailAtom \<and> Store_IsFlipped (store s) (- atom) = Inr False
             \<and> FindAtom (store s) atom = Inr this)"
| "entered_from s (SumTriggerAction_Flip_call p index) =
     (\<exists>r a. atom_at (store s) r = Some a \<and> p \<in> set (listening a))"
| "entered_from s c = True"

text \<open>
  How a cascade may change the memory: flags go from unflipped to flipped, counters
  change, trigger listeners leave; everything else stays.
\<close>

definition atom_evolves :: "Atom \<Rightarrow> Atom \<Rightarrow> bool" where
  "atom_evolves a a' \<longleftrightarrow>
     atom_index a' = atom_index a
     \<and> atom_sum_less_constant_constraints a' = atom_sum_less_constant_constraints a
     \<and> atom_actions a' = atom_actions a
     \<and> (flipped a \<longrightarrow> flipped a')
     \<and> length (elements (atom_sum_trigger_actions_constraints a'))
         = length (elements (atom_sum_trigger_actions_constraints a))
     \<and> set (listening a') \<subseteq> set (listening a)"

definition evolves :: "state \<Rightarrow> state \<Rightarrow> bool" where
  "evolves s s' \<longleftrightarrow>
     indices (store s') = indices (store s)
     \<and> length (true_atoms (store s')) = length (true_atoms (store s))
     \<and> length (false_atoms (store s')) = length (false_atoms (store s))
     \<and> sum_less_constant_constraints (store s') = sum_less_constant_constraints (store s)
     \<and> sum_trigger_actions_constraints (store s') = sum_trigger_actions_constraints (store s)
     \<and> (\<forall>r. rel_option atom_evolves (atom_at (store s) r) (atom_at (store s') r))
     \<and> length (slc_heap s') = length (slc_heap s)
     \<and> (\<forall>p < length (slc_heap s).
           slc_vars (slc_heap s' ! p) = slc_vars (slc_heap s ! p)
           \<and> slc_constant (slc_heap s' ! p) = slc_constant (slc_heap s ! p))
     \<and> length (sta_heap s') = length (sta_heap s)
     \<and> (\<forall>p < length (sta_heap s).
           sta_vars (sta_heap s' ! p) = sta_vars (sta_heap s ! p)
           \<and> sta_constant (sta_heap s' ! p) = sta_constant (sta_heap s ! p)
           \<and> sta_actions (sta_heap s' ! p) = sta_actions (sta_heap s ! p))"

text \<open>Two variables with their atoms, nothing posted, nothing flipped.\<close>

definition two_atoms :: state where
  "two_atoms = \<lparr>store = Store_with_atoms [7, 8], slc_heap = [], sta_heap = []\<rparr>"

text \<open>
  Three variables with their atoms and the posted constraint that at most one of the
  literals 1, 2, 3 holds.
\<close>

definition at_most_one :: state where
  "at_most_one =
     projr (SumLessConstant_Post
              \<lparr>store = Store_with_atoms [7, 8, 9],
               slc_heap = [SumLessConstant_new [1, 2, 3] 1], sta_heap = []\<rparr> 0)"

text \<open>The atom of \<open>source\<close> has \<open>destination\<close> among its flip actions.\<close>

definition has_edge :: "Store \<Rightarrow> AtomIndex \<Rightarrow> AtomIndex \<Rightarrow> bool" where
  "has_edge st source destination =
     (case FindAtom_deref st source of
        Inl e \<Rightarrow> False
      | Inr (r, a) \<Rightarrow> destination \<in> set (atom_actions a))"

text \<open>
  Five variables with their atoms and the posted trigger: once two of the literals
  1, 2, 3 hold, the literals 4 and 5 are flipped.
\<close>

definition two_of_three :: state where
  "two_of_three =
     projr (SumTriggerAction_Post
              \<lparr>store = Store_with_atoms [7, 8, 9, 10, 11], slc_heap = [],
               sta_heap = [SumTriggerAction_new [1, 2, 3] 2 [4, 5]]\<rparr> 0)"

text \<open>
  The state in which \<open>Atom::Flip\<close> of the atom \<open>r\<close> runs its three loops: the flag
  switched, nothing flipped or notified for it yet.
\<close>

definition flag_switched :: "state \<Rightarrow> atom_ref \<Rightarrow> state" where
  "flag_switched s r =
     (case atom_at (store s) r of
        None \<Rightarrow> s
      | Some a \<Rightarrow> s\<lparr>store := put_atom (store s) r (a\<lparr>flipped := True\<rparr>)\<rparr>)"

text \<open>
  Three variables with their atoms and the posted constraint that at most two of the
  literals 1, 2, 3 hold.
\<close>

definition at_most_two :: state where
  "at_most_two =
     projr (SumLessConstant_Post
              \<lparr>store = Store_with_atoms [7, 8, 9],
               slc_heap = [SumLessConstant_new [1, 2, 3] 2], sta_heap = []\<rparr> 0)"

text \<open>
  \<open>at_most_one\<close> with the relation that literal 1 implies literal 2 posted by
  \<open>AddBoolLe\<close>.
\<close>

definition at_most_one_and_le :: state where
  "at_most_one_and_le =
     at_most_one\<lparr>store := snd (projr (AddBoolLe plain_literal (store at_most_one) 7 8))\<rparr>"

text \<open>
  Three variables with their atoms, the posted constraint that at most one of the
  literals 1, 2 holds, and the posted trigger that flips literal 3 once literal -2 holds.
\<close>

definition bound_and_trigger :: state where
  "bound_and_trigger =
     projr (SumTriggerAction_Post
              (projr (SumLessConstant_Post
                        \<lparr>store = Store_with_atoms [7, 8, 9],
                         slc_heap = [SumLessConstant_new [1, 2] 1],
                         sta_heap = [SumTriggerAction_new [- 2] 1 [3]]\<rparr> 0)) 0)"

subsection \<open>Termination of the cascade\<close>

text \<open>
  The number of atoms not yet flipped: every \<open>Atom::Flip\<close> that gets past its \<open>CHECK\<close>
  lowers it by one.
\<close>

definition unflipped_weight :: "Atom option \<Rightarrow> nat" where
  "unflipped_weight ao = (case ao of None \<Rightarrow> 0 | Some a \<Rightarrow> if flipped a then 0 else 1)"

definition unflipped_atoms :: "state \<Rightarrow> nat" where
  "unflipped_atoms s =
     sum_list (map unflipped_weight (true_atoms (store s)))
       + sum_list (map unflipped_weight (false_atoms (store s)))"

text \<open>A computation that, given enough fuel, always gives the same outcome.\<close>

definition settles :: "(nat \<Rightarrow> outcome option) \<Rightarrow> bool" where
  "settles f \<longleftrightarrow> (\<exists>n out. \<forall>m \<ge> n. f m = Some out)"

section \<open>Properties\<close>

subsection \<open>Auxiliary lemmas\<close>

text \<open>Two 32-bit values compare as their two's-complement readings do.\<close>

lemma sint_cases:
  fixes a b :: "'a::len word"
  obtains (less) "sint a < sint b" | (equal) "a = b" | (greater) "sint b < sint a"
  by (metis linorder_cases signed_word_eqI)


lemma final_state_simps [simp]:
  "final_state (Inl (e, s)) = s" "final_state (Inr s) = s"
  by (simp_all add: final_state_def)

lemma and_then_rel:
  assumes "and_then r k = Some out"
    and "\<And>o1. r = Some o1 \<Longrightarrow> R s (final_state o1)"
    and "\<And>s' o2. r = Some (Inr s') \<Longrightarrow> k s' = Some o2 \<Longrightarrow> R s' (final_state o2)"
    and "\<And>s1 s2 s3. R s1 s2 \<Longrightarrow> R s2 s3 \<Longrightarrow> R s1 s3"
  shows "R s (final_state out)"
proof (cases r)
  case None
  with assms(1) show ?thesis by (simp add: and_then_def)
next
  case (Some o1)
  show ?thesis
  proof (cases o1)
    case (Inl e)
    with Some assms(1) have "out = Inl e" by (simp add: and_then_def)
    with assms(2) [OF Some] Inl show ?thesis by simp
  next
    case (Inr s')
    with Some assms(1) have k: "k s' = Some out" by (simp add: and_then_def)
    from assms(2) [OF Some] Inr have "R s s'" by simp
    moreover from assms(3) [OF _ k] Some Inr have "R s' (final_state out)" by simp
    ultimately show ?thesis by (rule assms(4))
  qed
qed

lemma Element_listening:
  "Element (atom_sum_trigger_actions_constraints a) i = Inr ct \<Longrightarrow> ct \<in> set (listening a)"
  by (auto simp: Element_def listening_def in_set_conv_nth split: if_splits intro!: exI [of _ i])

lemma StopListening_from_rel:
  assumes refl: "\<And>s. R s s"
    and trans: "\<And>s1 s2 s3. R s1 s2 \<Longrightarrow> R s2 s3 \<Longrightarrow> R s1 s3"
    and stop: "\<And>s p atom st'. Store_StopListening (store s) atom p = Inr st' \<Longrightarrow>
                 R s (s\<lparr>store := st'\<rparr>)"
  shows "R s (final_state (SumTriggerAction_StopListening_from s p i))"
proof (induction s p i rule: SumTriggerAction_StopListening_from.induct)
  case (1 s this i)
  show ?case
  proof (cases "sta_at s this")
    case None
    then show ?thesis
      by (subst SumTriggerAction_StopListening_from.simps) (simp add: refl)
  next
    case (Some t)
    show ?thesis
    proof (cases "i < length (sta_vars t)")
      case False
      with Some show ?thesis
        by (subst SumTriggerAction_StopListening_from.simps) (simp add: refl)
    next
      case True
      show ?thesis
      proof (cases "Store_StopListening (store s) (sta_vars t ! i) this")
        case (Inl e)
        with Some True show ?thesis
          by (subst SumTriggerAction_StopListening_from.simps) (simp add: refl)
      next
        case (Inr st')
        from stop [OF Inr] have a: "R s (s\<lparr>store := st'\<rparr>)" .
        from "1.IH" [OF Some True Inr]
        have b: "R (s\<lparr>store := st'\<rparr>)
                   (final_state (SumTriggerAction_StopListening_from (s\<lparr>store := st'\<rparr>) this (i + 1)))" .
        from trans [OF a b] Some True Inr show ?thesis
          by (subst SumTriggerAction_StopListening_from.simps) simp
      qed
    qed
  qed
qed


lemma run_rel:
  assumes refl: "\<And>s. R s s"
    and trans: "\<And>s1 s2 s3. R s1 s2 \<Longrightarrow> R s2 s3 \<Longrightarrow> R s1 s3"
    and flag: "\<And>s atom r a.
        atom \<noteq> kFailAtom \<Longrightarrow> Store_IsFlipped (store s) (- atom) = Inr False \<Longrightarrow>
        FindAtom (store s) atom = Inr r \<Longrightarrow> atom_at (store s) r = Some a \<Longrightarrow> \<not> flipped a \<Longrightarrow>
        R s (s\<lparr>store := put_atom (store s) r (a\<lparr>flipped := True\<rparr>)\<rparr>)"
    and slc: "\<And>s p c. slc_at s p = Some c \<Longrightarrow> R s (put_slc s p (c\<lparr>slc_sum := slc_sum c + 1\<rparr>))"
    and sta: "\<And>s p t r a.
        sta_at s p = Some t \<Longrightarrow> atom_at (store s) r = Some a \<Longrightarrow> p \<in> set (listening a) \<Longrightarrow>
        R s (put_sta s p (t\<lparr>sta_sum := sta_sum t + 1\<rparr>))"
    and stop: "\<And>s p atom st'. Store_StopListening (store s) atom p = Inr st' \<Longrightarrow>
                 R s (s\<lparr>store := st'\<rparr>)"
  shows "entered_from s c \<Longrightarrow> run n s c = Some out \<Longrightarrow> R s (final_state out)"
proof (induction n arbitrary: s c out)
  case 0
  then show ?case by simp
next
  case (Suc n)
  note IH = Suc.IH
  note run = Suc.prems(2)
  show ?case
  proof (cases c)
    case (Store_Flip_call atom)
    show ?thesis
    proof (cases "atom = kFailAtom \<or> Store_IsFlipped (store s) (- atom) = Inr True")
      case True
      with run Store_Flip_call have "out = Inl (SolverFail, s)" by auto
      then show ?thesis by (simp add: refl)
    next
      case False
      show ?thesis
      proof (cases "Store_IsFlipped (store s) (- atom)")
        case (Inl e)
        with run Store_Flip_call False have "out = Inl (e, s)" by auto
        then show ?thesis by (simp add: refl)
      next
        case (Inr b)
        with False have b: "Store_IsFlipped (store s) (- atom) = Inr False" by auto
        show ?thesis
        proof (cases "FindAtom (store s) atom")
          case (Inl e)
          with run Store_Flip_call False b have "out = Inl (e, s)" by auto
          then show ?thesis by (simp add: refl)
        next
          case (Inr r)
          with run Store_Flip_call False b have "run n s (Atom_Flip_call r) = Some out" by auto
          moreover from False b Inr have "entered_from s (Atom_Flip_call r)" by auto
          ultimately show ?thesis by (rule IH [rotated])
        qed
      qed
    qed
  next
    case (Atom_Flip_call this)
    with Suc.prems(1) obtain atom where atom: "atom \<noteq> kFailAtom"
      "Store_IsFlipped (store s) (- atom) = Inr False" "FindAtom (store s) atom = Inr this"
      by auto
    show ?thesis
    proof (cases "atom_at (store s) this")
      case None
      with run Atom_Flip_call have "out = Inl (BadAccess, s)" by auto
      then show ?thesis by (simp add: refl)
    next
      case (Some a)
      show ?thesis
      proof (cases "flipped a")
        case True
        with run Atom_Flip_call Some have "out = Inl (CheckFailed, s)" by auto
        then show ?thesis by (simp add: refl)
      next
        case False
        let ?s1 = "s\<lparr>store := put_atom (store s) this (a\<lparr>flipped := True\<rparr>)\<rparr>"
        from flag [OF atom Some False] have a: "R s ?s1" .
        from run Atom_Flip_call Some False
        have "and_then (run n ?s1 (Atom_Flip_actions_call this 0))
                (\<lambda>s1. and_then (run n s1 (Atom_Flip_sum_less_call this 0))
                (\<lambda>s2. run n s2 (Atom_Flip_sum_trigger_call this 0))) = Some out"
          by simp
        then have "R ?s1 (final_state out)"
        proof (rule and_then_rel)
          fix o1 assume "run n ?s1 (Atom_Flip_actions_call this 0) = Some o1"
          then show "R ?s1 (final_state o1)" by (rule IH [rotated]) simp
        next
          fix s' o2
          assume "and_then (run n s' (Atom_Flip_sum_less_call this 0))
                    (\<lambda>s2. run n s2 (Atom_Flip_sum_trigger_call this 0)) = Some o2"
          then show "R s' (final_state o2)"
          proof (rule and_then_rel)
            fix o1 assume "run n s' (Atom_Flip_sum_less_call this 0) = Some o1"
            then show "R s' (final_state o1)" by (rule IH [rotated]) simp
          next
            fix s'' o3 assume "run n s'' (Atom_Flip_sum_trigger_call this 0) = Some o3"
            then show "R s'' (final_state o3)" by (rule IH [rotated]) simp
          qed (rule trans)
        qed (rule trans)
        with a show ?thesis by (rule trans)
      qed
    qed
  next
    case (Atom_Flip_actions_call this i)
    show ?thesis
    proof (cases "atom_at (store s) this")
      case None
      with run Atom_Flip_actions_call have "out = Inl (BadAccess, s)" by auto
      then show ?thesis by (simp add: refl)
    next
      case (Some a)
      show ?thesis
      proof (cases "i < length (atom_actions a)")
        case False
        with run Atom_Flip_actions_call Some have "out = Inr s" by auto
        then show ?thesis by (simp add: refl)
      next
        case True
        with run Atom_Flip_actions_call Some
        have "and_then (run n s (Store_Flip_call (atom_actions a ! i)))
                (\<lambda>s'. run n s' (Atom_Flip_actions_call this (i + 1))) = Some out"
          by simp
        then show ?thesis
        proof (rule and_then_rel)
          fix o1 assume "run n s (Store_Flip_call (atom_actions a ! i)) = Some o1"
          then show "R s (final_state o1)" by (rule IH [rotated]) simp
        next
          fix s' o2 assume "run n s' (Atom_Flip_actions_call this (i + 1)) = Some o2"
          then show "R s' (final_state o2)" by (rule IH [rotated]) simp
        qed (rule trans)
      qed
    qed
  next
    case (Atom_Flip_sum_less_call this i)
    show ?thesis
    proof (cases "atom_at (store s) this")
      case None
      with run Atom_Flip_sum_less_call have "out = Inl (BadAccess, s)" by auto
      then show ?thesis by (simp add: refl)
    next
      case (Some a)
      show ?thesis
      proof (cases "i < length (atom_sum_less_constant_constraints a)")
        case False
        with run Atom_Flip_sum_less_call Some have "out = Inr s" by auto
        then show ?thesis by (simp add: refl)
      next
        case True
        with run Atom_Flip_sum_less_call Some
        have "and_then (run n s (SumLessConstant_Flip_call
                                   (atom_sum_less_constant_constraints a ! i) (atom_index a)))
                (\<lambda>s'. run n s' (Atom_Flip_sum_less_call this (i + 1))) = Some out"
          by simp
        then show ?thesis
        proof (rule and_then_rel)
          fix o1
          assume "run n s (SumLessConstant_Flip_call
                             (atom_sum_less_constant_constraints a ! i) (atom_index a)) = Some o1"
          then show "R s (final_state o1)" by (rule IH [rotated]) simp
        next
          fix s' o2 assume "run n s' (Atom_Flip_sum_less_call this (i + 1)) = Some o2"
          then show "R s' (final_state o2)" by (rule IH [rotated]) simp
        qed (rule trans)
      qed
    qed
  next
    case (Atom_Flip_sum_trigger_call this i)
    show ?thesis
    proof (cases "atom_at (store s) this")
      case None
      with run Atom_Flip_sum_trigger_call have "out = Inl (BadAccess, s)" by auto
      then show ?thesis by (simp add: refl)
    next
      case (Some a)
      show ?thesis
      proof (cases "i < size_of (atom_sum_trigger_actions_constraints a)")
        case False
        with run Atom_Flip_sum_trigger_call Some have "out = Inr s" by auto
        then show ?thesis by (simp add: refl)
      next
        case True
        show ?thesis
        proof (cases "Element (atom_sum_trigger_actions_constraints a) i")
          case (Inl e)
          with run Atom_Flip_sum_trigger_call Some True have "out = Inl (e, s)" by auto
          then show ?thesis by (simp add: refl)
        next
          case (Inr ct)
          with run Atom_Flip_sum_trigger_call Some True
          have "and_then (run n s (SumTriggerAction_Flip_call ct (atom_index a)))
                  (\<lambda>s'. run n s' (Atom_Flip_sum_trigger_call this (i + 1))) = Some out"
            by simp
          then show ?thesis
          proof (rule and_then_rel)
            fix o1
            assume "run n s (SumTriggerAction_Flip_call ct (atom_index a)) = Some o1"
            moreover from Some Element_listening [OF Inr]
            have "entered_from s (SumTriggerAction_Flip_call ct (atom_index a))" by auto
            ultimately show "R s (final_state o1)" by (rule IH [rotated])
          next
            fix s' o2 assume "run n s' (Atom_Flip_sum_trigger_call this (i + 1)) = Some o2"
            then show "R s' (final_state o2)" by (rule IH [rotated]) simp
          qed (rule trans)
        qed
      qed
    qed
  next
    case (SumLessConstant_Flip_call this index)
    show ?thesis
    proof (cases "slc_at s this")
      case None
      with run SumLessConstant_Flip_call have "out = Inl (BadAccess, s)" by auto
      then show ?thesis by (simp add: refl)
    next
      case (Some c)
      let ?s1 = "put_slc s this (c\<lparr>slc_sum := slc_sum c + 1\<rparr>)"
      from slc [OF Some] have a: "R s ?s1" .
      consider (over) "sint (slc_sum c + 1) > sint (slc_constant c)"
        | (reached) "slc_sum c + 1 = slc_constant c"
        | (under) "sint (slc_sum c + 1) < sint (slc_constant c)"
        by (rule sint_cases [of "slc_sum c + 1" "slc_constant c"])
      then show ?thesis
      proof cases
        case over
        with run SumLessConstant_Flip_call Some have "out = Inl (SolverFail, ?s1)"
          by (simp add: Let_def)
        with a show ?thesis by simp
      next
        case reached
        with run SumLessConstant_Flip_call Some
        have "run n ?s1 (UnflipAllPending_call this 0) = Some out"
          by (simp add: Let_def)
        then have "R ?s1 (final_state out)" by (rule IH [rotated]) simp
        with a show ?thesis by (rule trans)
      next
        case under
        then have "slc_sum c + 1 \<noteq> slc_constant c" by auto
        with under run SumLessConstant_Flip_call Some have "out = Inr ?s1"
          by (simp add: Let_def)
        with a show ?thesis by simp
      qed
    qed
  next
    case (UnflipAllPending_call this i)
    show ?thesis
    proof (cases "slc_at s this")
      case None
      with run UnflipAllPending_call have "out = Inl (BadAccess, s)" by auto
      then show ?thesis by (simp add: refl)
    next
      case (Some c)
      show ?thesis
      proof (cases "i < length (slc_vars c)")
        case False
        with run UnflipAllPending_call Some have "out = Inr s" by auto
        then show ?thesis by (simp add: refl)
      next
        case True
        show ?thesis
        proof (cases "Store_IsFlipped (store s) (slc_vars c ! i)")
          case (Inl e)
          with run UnflipAllPending_call Some True have "out = Inl (e, s)" by auto
          then show ?thesis by (simp add: refl)
        next
          case (Inr b)
          show ?thesis
          proof (cases b)
            case True
            with run UnflipAllPending_call Some \<open>i < length (slc_vars c)\<close> Inr
            have "run n s (UnflipAllPending_call this (i + 1)) = Some out" by simp
            then show ?thesis by (rule IH [rotated]) simp
          next
            case False
            with run UnflipAllPending_call Some \<open>i < length (slc_vars c)\<close> Inr
            have "and_then (run n s (Store_Flip_call (- (slc_vars c ! i))))
                    (\<lambda>s'. run n s' (UnflipAllPending_call this (i + 1))) = Some out"
              by simp
            then show ?thesis
            proof (rule and_then_rel)
              fix o1 assume "run n s (Store_Flip_call (- (slc_vars c ! i))) = Some o1"
              then show "R s (final_state o1)" by (rule IH [rotated]) simp
            next
              fix s' o2 assume "run n s' (UnflipAllPending_call this (i + 1)) = Some o2"
              then show "R s' (final_state o2)" by (rule IH [rotated]) simp
            qed (rule trans)
          qed
        qed
      qed
    qed
  next
    case (SumTriggerAction_Flip_call this index)
    with Suc.prems(1) obtain r a where ra: "atom_at (store s) r = Some a" "this \<in> set (listening a)"
      by auto
    show ?thesis
    proof (cases "sta_at s this")
      case None
      with run SumTriggerAction_Flip_call have "out = Inl (BadAccess, s)" by auto
      then show ?thesis by (simp add: refl)
    next
      case (Some t)
      let ?s1 = "put_sta s this (t\<lparr>sta_sum := sta_sum t + 1\<rparr>)"
      from sta [OF Some ra] have a: "R s ?s1" .
      show ?thesis
      proof (cases "sint (sta_sum t + 1) \<ge> sint (sta_constant t)")
        case False
        with run SumTriggerAction_Flip_call Some have "out = Inr ?s1"
          by (simp add: Let_def)
        with a show ?thesis by simp
      next
        case True
        have b: "R ?s1 (final_state (SumTriggerAction_StopListening ?s1 this))"
          unfolding SumTriggerAction_StopListening_def
          by (rule StopListening_from_rel [where R = R, OF refl trans stop])
        show ?thesis
        proof (cases "SumTriggerAction_StopListening ?s1 this")
          case (Inl e)
          with run SumTriggerAction_Flip_call Some True have "out = Inl e"
            by (simp add: Let_def)
          with a b Inl show ?thesis by (auto intro: trans)
        next
          case (Inr s2)
          with run SumTriggerAction_Flip_call Some True
          have "run n s2 (FlipAllAction_call this 0) = Some out"
            by (simp add: Let_def)
          then have "R s2 (final_state out)" by (rule IH [rotated]) simp
          moreover from b Inr have "R ?s1 s2" by simp
          ultimately show ?thesis using a by (blast intro: trans)
        qed
      qed
    qed
  next
    case (FlipAllAction_call this i)
    show ?thesis
    proof (cases "sta_at s this")
      case None
      with run FlipAllAction_call have "out = Inl (BadAccess, s)" by auto
      then show ?thesis by (simp add: refl)
    next
      case (Some t)
      show ?thesis
      proof (cases "i < length (sta_actions t)")
        case False
        with run FlipAllAction_call Some have "out = Inr s" by auto
        then show ?thesis by (simp add: refl)
      next
        case True
        with run FlipAllAction_call Some
        have "and_then (run n s (Store_Flip_call (sta_actions t ! i)))
                (\<lambda>s'. run n s' (FlipAllAction_call this (i + 1))) = Some out"
          by simp
        then show ?thesis
        proof (rule and_then_rel)
          fix o1 assume "run n s (Store_Flip_call (sta_actions t ! i)) = Some o1"
          then show "R s (final_state o1)" by (rule IH [rotated]) simp
        next
          fix s' o2 assume "run n s' (FlipAllAction_call this (i + 1)) = Some o2"
          then show "R s' (final_state o2)" by (rule IH [rotated]) simp
        qed (rule trans)
      qed
    qed
  qed
qed

lemma atom_at_refs: "atom_at st r = Some a \<Longrightarrow> r \<in> set (atom_refs st)"
  by (cases r) (auto simp: atom_refs_def split: if_splits)

lemma atom_at_TrueAtom:
  "atom_at st (TrueAtom i) = Some a \<longleftrightarrow> i < length (true_atoms st) \<and> true_atoms st ! i = Some a"
  by simp

lemma atom_at_FalseAtom:
  "atom_at st (FalseAtom i) = Some a \<longleftrightarrow> i < length (false_atoms st) \<and> false_atoms st ! i = Some a"
  by simp

lemma atom_at_put_atom:
  "atom_at st r = Some a0 \<Longrightarrow>
     atom_at (put_atom st r a) r' = (if r' = r then Some a else atom_at st r')"
  by (cases r; cases r') (auto split: if_splits)

lemma put_atom_fields [simp]:
  "length (true_atoms (put_atom st r a)) = length (true_atoms st)"
  "length (false_atoms (put_atom st r a)) = length (false_atoms st)"
  "indices (put_atom st r a) = indices st"
  "sum_less_constant_constraints (put_atom st r a) = sum_less_constant_constraints st"
  "sum_trigger_actions_constraints (put_atom st r a) = sum_trigger_actions_constraints st"
  by (cases r; simp)+

lemma FindAtom_lengths:
  "length (true_atoms st') = length (true_atoms st) \<Longrightarrow>
   length (false_atoms st') = length (false_atoms st) \<Longrightarrow> FindAtom st' atom = FindAtom st atom"
  by (simp add: FindAtom_def)

lemma IsFlipped_True_iff:
  "Store_IsFlipped st atom = Inr True \<longleftrightarrow>
     (\<exists>r a. FindAtom st atom = Inr r \<and> atom_at st r = Some a \<and> flipped a)"
  by (auto simp: Store_IsFlipped_def FindAtom_deref_def Atom_IsFlipped_def FindAtom_def
      split: sum.splits option.splits)

lemma IsFlipped_False_iff:
  "atom \<noteq> kFailAtom \<Longrightarrow>
   Store_IsFlipped st atom = Inr False \<longleftrightarrow>
     (\<exists>r a. FindAtom st atom = Inr r \<and> atom_at st r = Some a \<and> \<not> flipped a)"
  by (auto simp: Store_IsFlipped_def FindAtom_deref_def Atom_IsFlipped_def
      split: sum.splits option.splits)

subsection \<open>Removal from the reversible set\<close>

lemma Remove_listening:
  assumes "Remove a i = Inr a'" "i < num_elements a" "i < length (elements a)"
  shows "length (elements a') = length (elements a)
         \<and> num_elements a' = num_elements a - 1
         \<and> add_mset (elements a ! i) (mset (take (num_elements a') (elements a')))
             = mset (take (num_elements a) (elements a))"
proof (cases "i = num_elements a - 1")
  case True
  with assms have a': "a' = a\<lparr>num_elements := num_elements a - 1\<rparr>"
    by (auto simp: Remove_def SwapTo_def split: if_splits)
  from assms True have "take (num_elements a) (elements a)
      = take (num_elements a - 1) (elements a) @ [elements a ! i]"
    by (metis Suc_diff_1 not_gr_zero not_less_zero take_Suc_conv_app_nth)
  with a' show ?thesis by simp
next
  case False
  let ?m = "num_elements a - 1"
  from assms False have m: "?m < length (elements a)" "i < ?m"
    by (auto simp: Remove_def SwapTo_def split: if_splits)
  from assms False m have a': "a' = a\<lparr>num_elements := ?m,
      elements := (elements a)[?m := elements a ! i, i := elements a ! ?m]\<rparr>"
    by (auto simp: Remove_def SwapTo_def Let_def split: if_splits)
  have t: "take (num_elements a) (elements a) = take ?m (elements a) @ [elements a ! ?m]"
    using m assms(2) by (metis Suc_diff_1 not_gr_zero not_less_zero take_Suc_conv_app_nth)
  have "take ?m ((elements a)[?m := elements a ! i, i := elements a ! ?m])
          = (take ?m (elements a))[i := elements a ! ?m]"
    by (simp add: take_update_swap list_update_beyond)
  moreover have "elements a ! i \<in># mset (take ?m (elements a))"
    using m by (auto simp: in_set_conv_nth intro!: exI [of _ i])
  then have "add_mset (elements a ! i) (mset ((take ?m (elements a))[i := elements a ! ?m]))
          = add_mset (elements a ! ?m) (mset (take ?m (elements a)))"
    using m by (simp add: mset_update)
  ultimately show ?thesis using a' t by simp
qed

lemma RemoveElement_from_listening:
  "RemoveElement_from a e i = Inr a' \<Longrightarrow>
     (a' = a \<and> e \<notin> set (drop i (take (num_elements a) (elements a))))
     \<or> (length (elements a') = length (elements a)
        \<and> num_elements a' = num_elements a - 1
        \<and> add_mset e (mset (take (num_elements a') (elements a')))
            = mset (take (num_elements a) (elements a)))"
proof (induction a e i rule: RemoveElement_from.induct)
  case (1 a element i)
  show ?case
  proof (cases "i < num_elements a")
    case False
    with "1.prems" have "a' = a"
      by (subst (asm) RemoveElement_from.simps) simp
    with False show ?thesis by simp
  next
    case True
    with "1.prems" have len: "i < length (elements a)"
      by (subst (asm) RemoveElement_from.simps) (simp split: if_splits)
    show ?thesis
    proof (cases "elements a ! i = element")
      case True
      with "1.prems" \<open>i < num_elements a\<close> len have "Remove a i = Inr a'"
        by (subst (asm) RemoveElement_from.simps) simp
      from Remove_listening [OF this \<open>i < num_elements a\<close> len] True show ?thesis by auto
    next
      case False
      with "1.prems" \<open>i < num_elements a\<close> len
      have "RemoveElement_from a element (i + 1) = Inr a'"
        by (subst (asm) RemoveElement_from.simps) simp
      from "1.IH" [OF \<open>i < num_elements a\<close> len False this]
      show ?thesis
      proof
        assume h: "a' = a \<and> element \<notin> set (drop (i + 1) (take (num_elements a) (elements a)))"
        have "drop i (take (num_elements a) (elements a))
                = elements a ! i # drop (i + 1) (take (num_elements a) (elements a))"
          using \<open>i < num_elements a\<close> len
            Cons_nth_drop_Suc [of i "take (num_elements a) (elements a)"] by simp
        with h False show ?thesis by auto
      qed blast
    qed
  qed
qed

lemma RemoveElement_listening:
  "RemoveElement a e = Inr a' \<Longrightarrow>
     (a' = a \<and> e \<notin> set (take (num_elements a) (elements a)))
     \<or> (length (elements a') = length (elements a)
        \<and> num_elements a' = num_elements a - 1
        \<and> add_mset e (mset (take (num_elements a') (elements a')))
            = mset (take (num_elements a) (elements a)))"
  unfolding RemoveElement_def by (drule RemoveElement_from_listening) simp

lemma Atom_StopListening_props:
  assumes "Atom_StopListening a p = Inr a'"
  shows "atom_index a' = atom_index a"
    "atom_sum_less_constant_constraints a' = atom_sum_less_constant_constraints a"
    "atom_actions a' = atom_actions a" "flipped a' = flipped a"
    "length (elements (atom_sum_trigger_actions_constraints a'))
       = length (elements (atom_sum_trigger_actions_constraints a))"
    "(a' = a \<and> p \<notin> set (listening a)) \<or> add_mset p (mset (listening a')) = mset (listening a)"
  using assms RemoveElement_listening [of "atom_sum_trigger_actions_constraints a" p]
  by (auto simp: Atom_StopListening_def listening_def split: sum.splits)

lemma Atom_StopListening_subset:
  assumes "Atom_StopListening a p = Inr a'"
  shows "set (listening a') \<subseteq> set (listening a)"
proof -
  from Atom_StopListening_props(6) [OF assms]
  show ?thesis
  proof
    assume "add_mset p (mset (listening a')) = mset (listening a)"
    then have "set_mset (mset (listening a')) \<subseteq> set_mset (mset (listening a))"
      by (metis set_mset_add_mset_insert subset_insertI)
    then show ?thesis by simp
  qed simp
qed

lemma Store_StopListening_Inr:
  "Store_StopListening st atom p = Inr st' \<Longrightarrow>
     \<exists>r a a'. FindAtom st atom = Inr r \<and> atom_at st r = Some a
              \<and> Atom_StopListening a p = Inr a' \<and> st' = put_atom st r a'"
  by (auto simp: Store_StopListening_def FindAtom_deref_def split: sum.splits option.splits)


declare atom_at.simps [simp del] put_atom.simps [simp del]

lemma atom_evolves_refl: "atom_evolves a a"
  by (simp add: atom_evolves_def)

lemma atom_evolves_trans: "atom_evolves a b \<Longrightarrow> atom_evolves b c \<Longrightarrow> atom_evolves a c"
  by (auto simp: atom_evolves_def)

lemma rel_option_atom_evolves_trans:
  "rel_option atom_evolves x y \<Longrightarrow> rel_option atom_evolves y z \<Longrightarrow> rel_option atom_evolves x z"
  by (cases x; cases y; cases z) (auto intro: atom_evolves_trans)

lemma evolves_refl: "evolves s s"
  by (simp add: evolves_def option.rel_refl atom_evolves_refl)

lemma evolves_trans:
  assumes "evolves s1 s2" "evolves s2 s3"
  shows "evolves s1 s3"
  unfolding evolves_def
proof (intro conjI allI impI)
  fix r
  from assms show "rel_option atom_evolves (atom_at (store s1) r) (atom_at (store s3) r)"
    by (auto simp: evolves_def intro: rel_option_atom_evolves_trans)
next
  fix p assume "p < length (slc_heap s1)"
  with assms show "slc_vars (slc_heap s3 ! p) = slc_vars (slc_heap s1 ! p)"
    "slc_constant (slc_heap s3 ! p) = slc_constant (slc_heap s1 ! p)"
    by (auto simp: evolves_def)
next
  fix p assume "p < length (sta_heap s1)"
  with assms show "sta_vars (sta_heap s3 ! p) = sta_vars (sta_heap s1 ! p)"
    "sta_constant (sta_heap s3 ! p) = sta_constant (sta_heap s1 ! p)"
    "sta_actions (sta_heap s3 ! p) = sta_actions (sta_heap s1 ! p)"
    by (auto simp: evolves_def)
qed (use assms in \<open>simp_all add: evolves_def\<close>)

lemma evolves_put_atom:
  assumes "atom_at (store s) r = Some a" "atom_evolves a a'"
  shows "evolves s (s\<lparr>store := put_atom (store s) r a'\<rparr>)"
  unfolding evolves_def
proof (intro conjI allI impI)
  fix r'
  show "rel_option atom_evolves (atom_at (store s) r')
          (atom_at (store (s\<lparr>store := put_atom (store s) r a'\<rparr>)) r')"
    using assms by (simp add: atom_at_put_atom [OF assms(1)] option.rel_refl atom_evolves_refl)
qed simp_all

lemma evolves_flag:
  "atom_at (store s) r = Some a \<Longrightarrow>
     evolves s (s\<lparr>store := put_atom (store s) r (a\<lparr>flipped := True\<rparr>)\<rparr>)"
  by (rule evolves_put_atom, assumption) (simp add: atom_evolves_def listening_def)

lemma evolves_slc:
  "slc_at s p = Some c \<Longrightarrow> evolves s (put_slc s p (c\<lparr>slc_sum := slc_sum c + 1\<rparr>))"
  by (auto simp: evolves_def put_slc_def slc_at_def option.rel_refl atom_evolves_refl
      nth_list_update split: if_splits)

lemma evolves_sta:
  "sta_at s p = Some t \<Longrightarrow> evolves s (put_sta s p (t\<lparr>sta_sum := sta_sum t + 1\<rparr>))"
  by (auto simp: evolves_def put_sta_def sta_at_def option.rel_refl atom_evolves_refl
      nth_list_update split: if_splits)

lemma evolves_stop:
  assumes "Store_StopListening (store s) atom p = Inr st'"
  shows "evolves s (s\<lparr>store := st'\<rparr>)"
proof -
  from Store_StopListening_Inr [OF assms] obtain r a a' where
    h: "atom_at (store s) r = Some a" "Atom_StopListening a p = Inr a'"
       "st' = put_atom (store s) r a'"
    by blast
  from Atom_StopListening_props(1-5) [OF h(2)] Atom_StopListening_subset [OF h(2)]
  have "atom_evolves a a'" by (simp add: atom_evolves_def)
  from evolves_put_atom [OF h(1) this] h(3) show ?thesis by simp
qed

lemma run_evolves:
  "entered_from s c \<Longrightarrow> run n s c = Some out \<Longrightarrow> evolves s (final_state out)"
proof (rule run_rel [where R = evolves])
  show "\<And>s. evolves s s" by (rule evolves_refl)
  show "\<And>s1 s2 s3. evolves s1 s2 \<Longrightarrow> evolves s2 s3 \<Longrightarrow> evolves s1 s3" by (rule evolves_trans)
  show "\<And>s atom r a. atom_at (store s) r = Some a \<Longrightarrow>
          evolves s (s\<lparr>store := put_atom (store s) r (a\<lparr>flipped := True\<rparr>)\<rparr>)"
    by (rule evolves_flag)
  show "\<And>s p c. slc_at s p = Some c \<Longrightarrow> evolves s (put_slc s p (c\<lparr>slc_sum := slc_sum c + 1\<rparr>))"
    by (rule evolves_slc)
  show "\<And>s p t. sta_at s p = Some t \<Longrightarrow> evolves s (put_sta s p (t\<lparr>sta_sum := sta_sum t + 1\<rparr>))"
    by (rule evolves_sta)
  show "\<And>s p atom st'. Store_StopListening (store s) atom p = Inr st' \<Longrightarrow> evolves s (s\<lparr>store := st'\<rparr>)"
    by (rule evolves_stop)
qed

lemma evolves_FindAtom: "evolves s s' \<Longrightarrow> FindAtom (store s') atom = FindAtom (store s) atom"
  by (rule FindAtom_lengths) (simp_all add: evolves_def)

lemma evolves_atom_at:
  assumes "evolves s s'" "atom_at (store s) r = Some a"
  shows "\<exists>a'. atom_at (store s') r = Some a' \<and> atom_evolves a a'"
proof -
  from assms(1) have "rel_option atom_evolves (atom_at (store s) r) (atom_at (store s') r)"
    unfolding evolves_def by blast
  with assms(2) show ?thesis by (simp add: option_rel_Some1)
qed

lemma evolves_atom_at_back:
  assumes "evolves s s'" "atom_at (store s') r = Some a'"
  shows "\<exists>a. atom_at (store s) r = Some a \<and> atom_evolves a a'"
proof -
  from assms(1) have "rel_option atom_evolves (atom_at (store s) r) (atom_at (store s') r)"
    unfolding evolves_def by blast
  with assms(2) show ?thesis by (simp add: option_rel_Some2)
qed

lemma evolves_IsFlipped:
  assumes "evolves s s'" "Store_IsFlipped (store s) atom = Inr True"
  shows "Store_IsFlipped (store s') atom = Inr True"
proof -
  from assms(2) obtain r a where
    h: "FindAtom (store s) atom = Inr r" "atom_at (store s) r = Some a" "flipped a"
    unfolding IsFlipped_True_iff by blast
  from evolves_atom_at [OF assms(1) h(2)] obtain a' where
    a': "atom_at (store s') r = Some a'" "atom_evolves a a'" by blast
  from a'(2) h(3) have "flipped a'" by (simp add: atom_evolves_def)
  moreover from h(1) evolves_FindAtom [OF assms(1), of atom]
  have "FindAtom (store s') atom = Inr r" by simp
  ultimately show ?thesis using a'(1) unfolding IsFlipped_True_iff by blast
qed

lemma evolves_slc_at:
  "evolves s s' \<Longrightarrow> slc_at s p = Some c \<Longrightarrow>
     \<exists>c'. slc_at s' p = Some c' \<and> slc_vars c' = slc_vars c \<and> slc_constant c' = slc_constant c"
  by (auto simp: evolves_def slc_at_def split: if_splits)

lemma evolves_sta_at:
  "evolves s s' \<Longrightarrow> sta_at s p = Some t \<Longrightarrow>
     \<exists>t'. sta_at s' p = Some t' \<and> sta_vars t' = sta_vars t \<and> sta_constant t' = sta_constant t
          \<and> sta_actions t' = sta_actions t"
  by (auto simp: evolves_def sta_at_def split: if_splits)

lemma list_all_zip_nth:
  "list_all (\<lambda>(t, f). P t f) (zip xs ys) \<longleftrightarrow>
     (\<forall>i. i < length xs \<longrightarrow> i < length ys \<longrightarrow> P (xs ! i) (ys ! i))"
  by (auto simp: list_all_length)

lemma consistent_nth:
  "consistent st \<longleftrightarrow>
     (\<forall>i. i < length (true_atoms st) \<longrightarrow> i < length (false_atoms st) \<longrightarrow>
        \<not> (is_flipped (true_atoms st ! i) \<and> is_flipped (false_atoms st ! i)))"
  unfolding consistent_def by (rule list_all_zip_nth)


lemma consistent_iff:
  "consistent st \<longleftrightarrow>
     (\<forall>i a b. atom_at st (TrueAtom i) = Some a \<longrightarrow> atom_at st (FalseAtom i) = Some b \<longrightarrow>
        \<not> (flipped a \<and> flipped b))"
proof -
  have "(\<not> (is_flipped x \<and> is_flipped y)) \<longleftrightarrow>
          (\<forall>a b. x = Some a \<longrightarrow> y = Some b \<longrightarrow> \<not> (flipped a \<and> flipped b))" for x y
    by (cases x; cases y) (simp_all add: is_flipped_def)
  then show ?thesis
    unfolding consistent_nth atom_at_TrueAtom atom_at_FalseAtom by blast
qed

lemma FindAtom_neg:
  assumes "FindAtom st atom = Inr r" "FindAtom st (- atom) = Inr r'"
  shows "\<exists>i. (r = TrueAtom i \<and> r' = FalseAtom i) \<or> (r = FalseAtom i \<and> r' = TrueAtom i)"
proof (cases "atom > 0")
  case True
  with assms have "r = TrueAtom (nat (atom - 1))" "r' = FalseAtom (nat (atom - 1))"
    by (auto simp: FindAtom_def kFailAtom_def split: if_splits)
  then show ?thesis by blast
next
  case False
  with assms have "atom < 0" by (auto simp: FindAtom_def kFailAtom_def split: if_splits)
  with assms have "r = FalseAtom (nat (- 1 - atom))" "r' = TrueAtom (nat (- 1 - atom))"
    by (auto simp: FindAtom_def kFailAtom_def split: if_splits)
  then show ?thesis by blast
qed

lemma consistent_IsFlipped:
  assumes "consistent st"
  shows "\<not> (Store_IsFlipped st lit = Inr True \<and> Store_IsFlipped st (- lit) = Inr True)"
proof
  assume "Store_IsFlipped st lit = Inr True \<and> Store_IsFlipped st (- lit) = Inr True"
  then obtain r a r' a' where
    h: "FindAtom st lit = Inr r" "atom_at st r = Some a" "flipped a"
       "FindAtom st (- lit) = Inr r'" "atom_at st r' = Some a'" "flipped a'"
    unfolding IsFlipped_True_iff by blast
  from FindAtom_neg [OF h(1) h(4)] obtain i where
    "(r = TrueAtom i \<and> r' = FalseAtom i) \<or> (r = FalseAtom i \<and> r' = TrueAtom i)" by blast
  with h assms show False unfolding consistent_iff by blast
qed

lemma consistent_flag:
  assumes "atom \<noteq> kFailAtom" "Store_IsFlipped st (- atom) = Inr False"
    "FindAtom st atom = Inr r" "atom_at st r = Some a" "consistent st"
  shows "consistent (put_atom st r (a\<lparr>flipped := True\<rparr>))"
proof -
  let ?st' = "put_atom st r (a\<lparr>flipped := True\<rparr>)"
  from assms(1) have "- atom \<noteq> kFailAtom" by (simp add: kFailAtom_def)
  from assms(2) [unfolded IsFlipped_False_iff [OF this]] obtain r' b where
    b: "FindAtom st (- atom) = Inr r'" "atom_at st r' = Some b" "\<not> flipped b" by blast
  from FindAtom_neg [OF assms(3) b(1)] obtain j where
    j: "(r = TrueAtom j \<and> r' = FalseAtom j) \<or> (r = FalseAtom j \<and> r' = TrueAtom j)" by blast
  then have ne: "r' \<noteq> r" by auto
  have other: "atom_at ?st' q = atom_at st q" if "q \<noteq> r" for q
    using that by (simp add: atom_at_put_atom [OF assms(4)])
  show ?thesis
    unfolding consistent_iff
  proof (intro allI impI)
    fix i x y
    assume x: "atom_at ?st' (TrueAtom i) = Some x" and y: "atom_at ?st' (FalseAtom i) = Some y"
    show "\<not> (flipped x \<and> flipped y)"
    proof (cases "TrueAtom i = r \<or> FalseAtom i = r")
      case False
      with x y other have "atom_at st (TrueAtom i) = Some x" "atom_at st (FalseAtom i) = Some y"
        by auto
      with assms(5) show ?thesis unfolding consistent_iff by blast
    next
      case True
      then show ?thesis
      proof
        assume t: "TrueAtom i = r"
        with j have "r' = FalseAtom i" by auto
        with y other [OF ne] b show ?thesis by simp
      next
        assume f: "FalseAtom i = r"
        with j have "r' = TrueAtom i" by auto
        with x other [OF ne] b show ?thesis by simp
      qed
    qed
  qed
qed

lemma consistent_same_flags:
  assumes "atom_at st r = Some a" "flipped a' = flipped a" "consistent st"
  shows "consistent (put_atom st r a')"
  unfolding consistent_iff
proof (intro allI impI)
  fix i x y
  assume x: "atom_at (put_atom st r a') (TrueAtom i) = Some x"
    and y: "atom_at (put_atom st r a') (FalseAtom i) = Some y"
  have "\<exists>x0. atom_at st (TrueAtom i) = Some x0 \<and> flipped x0 = flipped x"
  proof (cases "TrueAtom i = r")
    case True
    with x assms(1,2) show ?thesis by (simp add: atom_at_put_atom [OF assms(1)])
  next
    case False
    with x show ?thesis by (simp add: atom_at_put_atom [OF assms(1)])
  qed
  moreover have "\<exists>y0. atom_at st (FalseAtom i) = Some y0 \<and> flipped y0 = flipped y"
  proof (cases "FalseAtom i = r")
    case True
    with y assms(1,2) show ?thesis by (simp add: atom_at_put_atom [OF assms(1)])
  next
    case False
    with y show ?thesis by (simp add: atom_at_put_atom [OF assms(1)])
  qed
  ultimately show "\<not> (flipped x \<and> flipped y)"
    using assms(3) unfolding consistent_iff by blast
qed

lemma consistent_stop:
  assumes "Store_StopListening st atom p = Inr st'" "consistent st"
  shows "consistent st'"
proof -
  from Store_StopListening_Inr [OF assms(1)] obtain r a a' where
    h: "atom_at st r = Some a" "Atom_StopListening a p = Inr a'" "st' = put_atom st r a'"
    by blast
  from consistent_same_flags [OF h(1) Atom_StopListening_props(4) [OF h(2)] assms(2)] h(3)
  show ?thesis by simp
qed

lemma run_consistent_imp:
  "entered_from s c \<Longrightarrow> run n s c = Some out \<Longrightarrow>
     consistent (store s) \<longrightarrow> consistent (store (final_state out))"
proof (rule run_rel [where R = "\<lambda>s s'. consistent (store s) \<longrightarrow> consistent (store s')"])
  fix s atom r a
  assume "atom \<noteq> kFailAtom" "Store_IsFlipped (store s) (- atom) = Inr False"
    "FindAtom (store s) atom = Inr r" "atom_at (store s) r = Some a"
  then show "consistent (store s) \<longrightarrow>
      consistent (store (s\<lparr>store := put_atom (store s) r (a\<lparr>flipped := True\<rparr>)\<rparr>))"
    by (simp add: consistent_flag)
next
  fix s p c
  show "consistent (store s) \<longrightarrow>
      consistent (store (put_slc s p (c\<lparr>slc_sum := slc_sum c + 1\<rparr>)))"
    by (simp add: put_slc_def)
next
  fix s p t
  show "consistent (store s) \<longrightarrow>
      consistent (store (put_sta s p (t\<lparr>sta_sum := sta_sum t + 1\<rparr>)))"
    by (simp add: put_sta_def)
next
  fix s p atom st'
  assume "Store_StopListening (store s) atom p = Inr st'"
  then show "consistent (store s) \<longrightarrow> consistent (store (s\<lparr>store := st'\<rparr>))"
    by (simp add: consistent_stop)
qed simp_all

lemma run_consistent:
  "entered_from s c \<Longrightarrow> run n s c = Some out \<Longrightarrow> consistent (store s) \<Longrightarrow>
     consistent (store (final_state out))"
  using run_consistent_imp by blast

lemma Atom_Flip_sets_flag:
  assumes "run n s (Atom_Flip_call r) = Some (Inr s')"
  shows "\<exists>a'. atom_at (store s') r = Some a' \<and> flipped a'"
proof -
  from assms obtain m where n: "n = Suc m" by (cases n) auto
  from assms n obtain a where a: "atom_at (store s) r = Some a" "\<not> flipped a"
    by (auto split: option.splits if_splits)
  let ?s1 = "s\<lparr>store := put_atom (store s) r (a\<lparr>flipped := True\<rparr>)\<rparr>"
  from assms n a
  have "and_then (run m ?s1 (Atom_Flip_actions_call r 0))
          (\<lambda>s1. and_then (run m s1 (Atom_Flip_sum_less_call r 0))
          (\<lambda>s2. run m s2 (Atom_Flip_sum_trigger_call r 0))) = Some (Inr s')"
    by simp
  then have "evolves ?s1 (final_state (Inr s'))"
  proof (rule and_then_rel)
    fix o1 assume "run m ?s1 (Atom_Flip_actions_call r 0) = Some o1"
    then show "evolves ?s1 (final_state o1)" by (rule run_evolves [rotated]) simp
  next
    fix s2 o2
    assume "and_then (run m s2 (Atom_Flip_sum_less_call r 0))
              (\<lambda>s2. run m s2 (Atom_Flip_sum_trigger_call r 0)) = Some o2"
    then show "evolves s2 (final_state o2)"
    proof (rule and_then_rel)
      fix o1 assume "run m s2 (Atom_Flip_sum_less_call r 0) = Some o1"
      then show "evolves s2 (final_state o1)" by (rule run_evolves [rotated]) simp
    next
      fix s3 o3 assume "run m s3 (Atom_Flip_sum_trigger_call r 0) = Some o3"
      then show "evolves s3 (final_state o3)" by (rule run_evolves [rotated]) simp
    qed (rule evolves_trans)
  qed (rule evolves_trans)
  then have ev: "evolves ?s1 s'" by simp
  have "atom_at (store ?s1) r = Some (a\<lparr>flipped := True\<rparr>)"
    by (simp add: atom_at_put_atom [OF a(1)])
  from evolves_atom_at [OF ev this] show ?thesis by (auto simp: atom_evolves_def)
qed

lemma Store_Flip_sets_flag:
  assumes "run n s (Store_Flip_call atom) = Some (Inr s')"
  shows "Store_IsFlipped (store s') atom = Inr True"
proof -
  from assms obtain m where n: "n = Suc m" by (cases n) auto
  from assms n obtain r where r: "FindAtom (store s) atom = Inr r"
    "run m s (Atom_Flip_call r) = Some (Inr s')"
    by (auto split: if_splits sum.splits)
  from Atom_Flip_sets_flag [OF r(2)] obtain a' where
    a': "atom_at (store s') r = Some a'" "flipped a'" by blast
  have "entered_from s (Store_Flip_call atom)" by simp
  from run_evolves [OF this assms] have "evolves s s'" by simp
  from evolves_FindAtom [OF this, of atom] r(1) have "FindAtom (store s') atom = Inr r" by simp
  with a' show ?thesis unfolding IsFlipped_True_iff by blast
qed

lemma Store_Flip_Suc:
  "Store_Flip (Suc n) s atom =
     (if atom = kFailAtom \<or> Store_IsFlipped (store s) (- atom) = Inr True
      then Some (Inl (SolverFail, s))
      else (case Store_IsFlipped (store s) (- atom) of
              Inl e \<Rightarrow> Some (Inl (e, s))
            | Inr b \<Rightarrow>
                (case FindAtom (store s) atom of
                   Inl e \<Rightarrow> Some (Inl (e, s))
                 | Inr r \<Rightarrow> Atom_Flip n s r)))"
  by (simp add: Store_Flip_def Atom_Flip_def split: sum.splits)

lemma and_then_Inr:
  "and_then r k = Some (Inr s') \<Longrightarrow> \<exists>s1. r = Some (Inr s1) \<and> k s1 = Some (Inr s')"
  by (auto simp: and_then_def split: option.splits sum.splits)

lemma run_evolves_Inr:
  "entered_from s c \<Longrightarrow> run n s c = Some (Inr s') \<Longrightarrow> evolves s s'"
  using run_evolves [of s c n "Inr s'"] by simp

lemma UnflipAllPending_closes:
  "run n s (UnflipAllPending_call this i) = Some (Inr s') \<Longrightarrow> slc_at s this = Some c \<Longrightarrow>
   i \<le> j \<Longrightarrow> j < length (slc_vars c) \<Longrightarrow>
     Store_IsFlipped (store s') (slc_vars c ! j) = Inr True
     \<or> Store_IsFlipped (store s') (- (slc_vars c ! j)) = Inr True"
proof (induction n arbitrary: s i c)
  case 0
  then show ?case by simp
next
  case (Suc n)
  from Suc.prems(3,4) have i: "i < length (slc_vars c)" by simp
  show ?case
  proof (cases "Store_IsFlipped (store s) (slc_vars c ! i)")
    case (Inl e)
    with Suc.prems(1,2) i show ?thesis by simp
  next
    case (Inr b)
    show ?thesis
    proof (cases b)
      case True
      with Suc.prems(1,2) i Inr
      have next_round: "run n s (UnflipAllPending_call this (i + 1)) = Some (Inr s')" by simp
      show ?thesis
      proof (cases "j = i")
        case True
        from next_round have "evolves s s'" by (rule run_evolves_Inr [rotated]) simp
        from evolves_IsFlipped [OF this] Inr \<open>b\<close> True show ?thesis by simp
      next
        case False
        with Suc.prems(3) have "i + 1 \<le> j" by simp
        from Suc.IH [OF next_round Suc.prems(2) this Suc.prems(4)] show ?thesis .
      qed
    next
      case False
      with Suc.prems(1,2) i Inr
      have "and_then (run n s (Store_Flip_call (- (slc_vars c ! i))))
              (\<lambda>s'. run n s' (UnflipAllPending_call this (i + 1))) = Some (Inr s')"
        by simp
      from and_then_Inr [OF this] obtain s1 where
        s1: "run n s (Store_Flip_call (- (slc_vars c ! i))) = Some (Inr s1)"
            "run n s1 (UnflipAllPending_call this (i + 1)) = Some (Inr s')"
        by blast
      from s1(1) have ev: "evolves s s1" by (rule run_evolves_Inr [rotated]) simp
      from evolves_slc_at [OF ev Suc.prems(2)] obtain c1 where
        c1: "slc_at s1 this = Some c1" "slc_vars c1 = slc_vars c" by blast
      show ?thesis
      proof (cases "j = i")
        case True
        from Store_Flip_sets_flag [OF s1(1)]
        have "Store_IsFlipped (store s1) (- (slc_vars c ! i)) = Inr True" .
        moreover from s1(2) have "evolves s1 s'" by (rule run_evolves_Inr [rotated]) simp
        ultimately show ?thesis using True evolves_IsFlipped by blast
      next
        case False
        with Suc.prems(3) have "i + 1 \<le> j" by simp
        from Suc.IH [OF s1(2) c1(1) this] Suc.prems(4) c1(2) show ?thesis by simp
      qed
    qed
  qed
qed

lemma Atom_Flip_actions_flips:
  "run n s (Atom_Flip_actions_call r i) = Some (Inr s') \<Longrightarrow> atom_at (store s) r = Some a \<Longrightarrow>
   i \<le> j \<Longrightarrow> j < length (atom_actions a) \<Longrightarrow>
     Store_IsFlipped (store s') (atom_actions a ! j) = Inr True"
proof (induction n arbitrary: s i a)
  case 0
  then show ?case by simp
next
  case (Suc n)
  from Suc.prems(3,4) have i: "i < length (atom_actions a)" by simp
  with Suc.prems(1,2)
  have "and_then (run n s (Store_Flip_call (atom_actions a ! i)))
          (\<lambda>s'. run n s' (Atom_Flip_actions_call r (i + 1))) = Some (Inr s')"
    by simp
  from and_then_Inr [OF this] obtain s1 where
    s1: "run n s (Store_Flip_call (atom_actions a ! i)) = Some (Inr s1)"
        "run n s1 (Atom_Flip_actions_call r (i + 1)) = Some (Inr s')"
    by blast
  from s1(1) have ev: "evolves s s1" by (rule run_evolves_Inr [rotated]) simp
  from evolves_atom_at [OF ev Suc.prems(2)] obtain a1 where
    a1: "atom_at (store s1) r = Some a1" "atom_actions a1 = atom_actions a"
    by (auto simp: atom_evolves_def)
  show ?case
  proof (cases "j = i")
    case True
    from Store_Flip_sets_flag [OF s1(1)]
    have "Store_IsFlipped (store s1) (atom_actions a ! i) = Inr True" .
    moreover from s1(2) have "evolves s1 s'" by (rule run_evolves_Inr [rotated]) simp
    ultimately show ?thesis using True evolves_IsFlipped by blast
  next
    case False
    with Suc.prems(3) have "i + 1 \<le> j" by simp
    from Suc.IH [OF s1(2) a1(1) this] Suc.prems(4) a1(2) show ?thesis by simp
  qed
qed

lemma FlipAllAction_flips:
  "run n s (FlipAllAction_call p i) = Some (Inr s') \<Longrightarrow> sta_at s p = Some t \<Longrightarrow>
   i \<le> j \<Longrightarrow> j < length (sta_actions t) \<Longrightarrow>
     Store_IsFlipped (store s') (sta_actions t ! j) = Inr True"
proof (induction n arbitrary: s i t)
  case 0
  then show ?case by simp
next
  case (Suc n)
  from Suc.prems(3,4) have i: "i < length (sta_actions t)" by simp
  with Suc.prems(1,2)
  have "and_then (run n s (Store_Flip_call (sta_actions t ! i)))
          (\<lambda>s'. run n s' (FlipAllAction_call p (i + 1))) = Some (Inr s')"
    by simp
  from and_then_Inr [OF this] obtain s1 where
    s1: "run n s (Store_Flip_call (sta_actions t ! i)) = Some (Inr s1)"
        "run n s1 (FlipAllAction_call p (i + 1)) = Some (Inr s')"
    by blast
  from s1(1) have ev: "evolves s s1" by (rule run_evolves_Inr [rotated]) simp
  from evolves_sta_at [OF ev Suc.prems(2)] obtain t1 where
    t1: "sta_at s1 p = Some t1" "sta_actions t1 = sta_actions t" by blast
  show ?case
  proof (cases "j = i")
    case True
    from Store_Flip_sets_flag [OF s1(1)]
    have "Store_IsFlipped (store s1) (sta_actions t ! i) = Inr True" .
    moreover from s1(2) have "evolves s1 s'" by (rule run_evolves_Inr [rotated]) simp
    ultimately show ?thesis using True evolves_IsFlipped by blast
  next
    case False
    with Suc.prems(3) have "i + 1 \<le> j" by simp
    from Suc.IH [OF s1(2) t1(1) this] Suc.prems(4) t1(2) show ?thesis by simp
  qed
qed

lemma Store_Flip_forces:
  assumes "run n s (Store_Flip_call atom) = Some (Inr s')"
    "FindAtom (store s) atom = Inr r" "atom_at (store s) r = Some a" "b \<in> set (atom_actions a)"
  shows "Store_IsFlipped (store s') b = Inr True"
proof -
  from assms(1) obtain m where n: "n = Suc m" by (cases n) auto
  from assms(1,2) n have af: "run m s (Atom_Flip_call r) = Some (Inr s')"
    by (auto split: if_splits sum.splits)
  then obtain k where m: "m = Suc k" by (cases m) auto
  let ?s1 = "s\<lparr>store := put_atom (store s) r (a\<lparr>flipped := True\<rparr>)\<rparr>"
  from af m assms(3) have nf: "\<not> flipped a" by (auto split: if_splits)
  with af m assms(3)
  have "and_then (run k ?s1 (Atom_Flip_actions_call r 0))
          (\<lambda>s1. and_then (run k s1 (Atom_Flip_sum_less_call r 0))
          (\<lambda>s2. run k s2 (Atom_Flip_sum_trigger_call r 0))) = Some (Inr s')"
    by simp
  from and_then_Inr [OF this] obtain s2 where
    s2: "run k ?s1 (Atom_Flip_actions_call r 0) = Some (Inr s2)"
        "and_then (run k s2 (Atom_Flip_sum_less_call r 0))
           (\<lambda>s2. run k s2 (Atom_Flip_sum_trigger_call r 0)) = Some (Inr s')"
    by blast
  from and_then_Inr [OF s2(2)] obtain s3 where
    s3: "run k s2 (Atom_Flip_sum_less_call r 0) = Some (Inr s3)"
        "run k s3 (Atom_Flip_sum_trigger_call r 0) = Some (Inr s')"
    by blast
  from assms(4) obtain j where j: "j < length (atom_actions a)" "atom_actions a ! j = b"
    by (auto simp: in_set_conv_nth)
  have "atom_at (store ?s1) r = Some (a\<lparr>flipped := True\<rparr>)"
    by (simp add: atom_at_put_atom [OF assms(3)])
  from Atom_Flip_actions_flips [OF s2(1) this, of j] j
  have "Store_IsFlipped (store s2) b = Inr True" by simp
  moreover from s3(1) have "evolves s2 s3" by (rule run_evolves_Inr [rotated]) simp
  moreover from s3(2) have "evolves s3 s'" by (rule run_evolves_Inr [rotated]) simp
  ultimately show ?thesis using evolves_IsFlipped by blast
qed

lemma SumLessConstant_Flip_Suc:
  "SumLessConstant_Flip (Suc n) s this index =
     (case slc_at s this of
        None \<Rightarrow> Some (Inl (BadAccess, s))
      | Some c \<Rightarrow>
          (let s1 = put_slc s this (c\<lparr>slc_sum := slc_sum c + 1\<rparr>) in
           if sint (slc_sum c + 1) > sint (slc_constant c) then Some (Inl (SolverFail, s1))
           else if slc_sum c + 1 = slc_constant c then UnflipAllPending n s1 this
           else Some (Inr s1)))"
  by (simp add: SumLessConstant_Flip_def UnflipAllPending_def Let_def split: option.splits)

lemma slc_at_put_slc:
  "slc_at s p = Some c \<Longrightarrow> slc_at (put_slc s p c') q = (if q = p then Some c' else slc_at s q)"
  by (auto simp: slc_at_def put_slc_def split: if_splits)

lemma sta_at_put_sta:
  "sta_at s p = Some t \<Longrightarrow> sta_at (put_sta s p t') q = (if q = p then Some t' else sta_at s q)"
  by (auto simp: sta_at_def put_sta_def split: if_splits)

lemma has_edge_iff:
  "has_edge st x y \<longleftrightarrow>
     (\<exists>r a. FindAtom st x = Inr r \<and> atom_at st r = Some a \<and> y \<in> set (atom_actions a))"
  by (auto simp: has_edge_def FindAtom_deref_def split: sum.splits option.splits)

lemma Store_AddFlipAction_Inr:
  assumes "Store_AddFlipAction st src dst = Inr st'"
  shows "\<exists>r a. FindAtom st src = Inr r \<and> atom_at st r = Some a
           \<and> st' = put_atom st r (a\<lparr>atom_actions := atom_actions a @ [dst]\<rparr>)"
  using assms
  by (auto simp: Store_AddFlipAction_def FindAtom_deref_def Atom_AddFlipAction_def
      split: sum.splits option.splits)

lemma Store_AddFlipAction_atom_at:
  assumes "Store_AddFlipAction st src dst = Inr st'"
  shows "atom_at st' r =
           map_option (\<lambda>a. a\<lparr>atom_actions :=
                                atom_actions a @ (if FindAtom st src = Inr r then [dst] else [])\<rparr>)
             (atom_at st r)"
proof -
  from Store_AddFlipAction_Inr [OF assms] obtain r0 a0 where
    h: "FindAtom st src = Inr r0" "atom_at st r0 = Some a0"
       "st' = put_atom st r0 (a0\<lparr>atom_actions := atom_actions a0 @ [dst]\<rparr>)"
    by blast
  show ?thesis
  proof (cases "r = r0")
    case True
    with h show ?thesis by (simp add: atom_at_put_atom [OF h(2)])
  next
    case False
    with h show ?thesis
      by (cases "atom_at st r") (auto simp: atom_at_put_atom [OF h(2)])
  qed
qed

lemma Store_AddFlipAction_frame:
  assumes "Store_AddFlipAction st src dst = Inr st'"
  shows "indices st' = indices st" "length (true_atoms st') = length (true_atoms st)"
    "length (false_atoms st') = length (false_atoms st)"
    "sum_less_constant_constraints st' = sum_less_constant_constraints st"
    "sum_trigger_actions_constraints st' = sum_trigger_actions_constraints st"
    "FindAtom st' x = FindAtom st x"
  using Store_AddFlipAction_Inr [OF assms] by (auto simp: FindAtom_def)

lemma AddBoolLe_Inr_True:
  assumes "IsBooleanVar left = Some (left_var, left_negated)"
    "IsBooleanVar right = Some (right_var, right_negated)"
    "Index st left_var left_negated = (L, st1)" "Index st1 right_var right_negated = (R, st2)"
    "AddBoolLe IsBooleanVar st left right = Inr (True, st')"
  shows "\<exists>st3. Store_AddFlipAction st2 L R = Inr st3
           \<and> Store_AddFlipAction st3 (- R) (- L) = Inr st'"
  using assms by (auto simp: AddBoolLe_def split: sum.splits)

lemma AddBoolLe_atom_at:
  assumes "IsBooleanVar left = Some (left_var, left_negated)"
    "IsBooleanVar right = Some (right_var, right_negated)"
    "Index st left_var left_negated = (L, st1)" "Index st1 right_var right_negated = (R, st2)"
    "AddBoolLe IsBooleanVar st left right = Inr (True, st')"
  shows "atom_at st' r =
           map_option (\<lambda>a. a\<lparr>atom_actions :=
                                atom_actions a @ (if FindAtom st2 L = Inr r then [R] else [])
                                  @ (if FindAtom st2 (- R) = Inr r then [- L] else [])\<rparr>)
             (atom_at st2 r)"
    and "indices st' = indices st2"
    and "length (true_atoms st') = length (true_atoms st2)"
    and "length (false_atoms st') = length (false_atoms st2)"
    and "sum_less_constant_constraints st' = sum_less_constant_constraints st2"
    and "sum_trigger_actions_constraints st' = sum_trigger_actions_constraints st2"
proof -
  from AddBoolLe_Inr_True [OF assms] obtain st3 where
    h: "Store_AddFlipAction st2 L R = Inr st3" "Store_AddFlipAction st3 (- R) (- L) = Inr st'"
    by blast
  show "atom_at st' r =
           map_option (\<lambda>a. a\<lparr>atom_actions :=
                                atom_actions a @ (if FindAtom st2 L = Inr r then [R] else [])
                                  @ (if FindAtom st2 (- R) = Inr r then [- L] else [])\<rparr>)
             (atom_at st2 r)"
    by (cases "atom_at st2 r")
       (simp_all add: Store_AddFlipAction_atom_at [OF h(2)] Store_AddFlipAction_atom_at [OF h(1)]
          Store_AddFlipAction_frame(6) [OF h(1)])
  from Store_AddFlipAction_frame [OF h(1)] Store_AddFlipAction_frame [OF h(2)]
  show "indices st' = indices st2"
    "length (true_atoms st') = length (true_atoms st2)"
    "length (false_atoms st') = length (false_atoms st2)"
    "sum_less_constant_constraints st' = sum_less_constant_constraints st2"
    "sum_trigger_actions_constraints st' = sum_trigger_actions_constraints st2"
    by simp_all
qed

lemma AddBoolLe_has_edges:
  assumes "IsBooleanVar left = Some (left_var, left_negated)"
    "IsBooleanVar right = Some (right_var, right_negated)"
    "Index st left_var left_negated = (L, st1)" "Index st1 right_var right_negated = (R, st2)"
    "AddBoolLe IsBooleanVar st left right = Inr (True, st')"
  shows "has_edge st' L R" "has_edge st' (- R) (- L)"
proof -
  from AddBoolLe_Inr_True [OF assms] obtain st3 where
    h: "Store_AddFlipAction st2 L R = Inr st3" "Store_AddFlipAction st3 (- R) (- L) = Inr st'"
    by blast
  from Store_AddFlipAction_Inr [OF h(1)] obtain r1 a1 where
    r1: "FindAtom st2 L = Inr r1" "atom_at st2 r1 = Some a1" by blast
  from Store_AddFlipAction_Inr [OF h(2)] obtain r2 a2 where
    r2: "FindAtom st3 (- R) = Inr r2" "atom_at st3 r2 = Some a2" by blast
  note f1 = Store_AddFlipAction_frame(6) [OF h(1)]
  note f2 = Store_AddFlipAction_frame(6) [OF h(2)]
  have "atom_at st3 r1 = Some (a1\<lparr>atom_actions := atom_actions a1 @ [R]\<rparr>)"
    using r1 by (simp add: Store_AddFlipAction_atom_at [OF h(1)])
  then have "\<exists>a. atom_at st' r1 = Some a \<and> R \<in> set (atom_actions a)"
    by (simp add: Store_AddFlipAction_atom_at [OF h(2)])
  with r1(1) f1 f2 show "has_edge st' L R" unfolding has_edge_iff by auto
  have "\<exists>a. atom_at st' r2 = Some a \<and> - L \<in> set (atom_actions a)"
    using r2 by (simp add: Store_AddFlipAction_atom_at [OF h(2)])
  with r2(1) f2 show "has_edge st' (- R) (- L)" unfolding has_edge_iff by auto
qed

lemma has_edge_forces:
  assumes "has_edge (store s) x y" "Store_Flip n s x = Some (Inr s')"
  shows "Store_IsFlipped (store s') y = Inr True"
proof -
  from assms(1) obtain r a where
    "FindAtom (store s) x = Inr r" "atom_at (store s) r = Some a" "y \<in> set (atom_actions a)"
    unfolding has_edge_iff by blast
  with assms(2) show ?thesis
    using Store_Flip_forces [of n s x s' r a y] by (simp add: Store_Flip_def)
qed

lemma atom_refs_atom_at:
  "r \<in> set (atom_refs st) \<Longrightarrow> atom_at st r = None \<or> (\<exists>a. atom_at st r = Some a)"
  by (cases "atom_at st r") simp_all

lemma not_listening_iff:
  "not_listening s p \<longleftrightarrow> (\<forall>r a. atom_at (store s) r = Some a \<longrightarrow> p \<notin> set (listening a))"
proof
  assume h: "not_listening s p"
  show "\<forall>r a. atom_at (store s) r = Some a \<longrightarrow> p \<notin> set (listening a)"
  proof (intro allI impI)
    fix r a assume a: "atom_at (store s) r = Some a"
    from atom_at_refs [OF a] h have "case atom_at (store s) r of None \<Rightarrow> True
        | Some a \<Rightarrow> p \<notin> set (listening a)"
      unfolding not_listening_def by blast
    with a show "p \<notin> set (listening a)" by simp
  qed
next
  assume "\<forall>r a. atom_at (store s) r = Some a \<longrightarrow> p \<notin> set (listening a)"
  then show "not_listening s p"
    unfolding not_listening_def by (auto split: option.splits)
qed

lemma listens_as_posted_iff:
  "listens_as_posted s p \<longleftrightarrow>
     (\<exists>t. sta_at s p = Some t
        \<and> (\<forall>r a. atom_at (store s) r = Some a \<longrightarrow>
              count_list (listening a) p
                \<le> length (filter (\<lambda>v. FindAtom (store s) v = Inr r) (sta_vars t))))"
proof (cases "sta_at s p")
  case None
  then show ?thesis by (simp add: listens_as_posted_def)
next
  case (Some t)
  have "(\<forall>r \<in> set (atom_refs (store s)).
             case atom_at (store s) r of
               None \<Rightarrow> True
             | Some a \<Rightarrow>
                 count_list (listening a) p
                   \<le> length (filter (\<lambda>v. FindAtom (store s) v = Inr r) (sta_vars t)))
        \<longleftrightarrow> (\<forall>r a. atom_at (store s) r = Some a \<longrightarrow>
              count_list (listening a) p
                \<le> length (filter (\<lambda>v. FindAtom (store s) v = Inr r) (sta_vars t)))"
    (is "?L \<longleftrightarrow> ?R")
  proof
    assume l: ?L
    show ?R
    proof (intro allI impI)
      fix r a assume a: "atom_at (store s) r = Some a"
      from atom_at_refs [OF a] l a
      show "count_list (listening a) p
              \<le> length (filter (\<lambda>v. FindAtom (store s) v = Inr r) (sta_vars t))"
        by fastforce
    qed
  next
    assume ?R
    then show ?L by (auto split: option.splits)
  qed
  with Some show ?thesis by (simp add: listens_as_posted_def)
qed

lemma sta_at_store_update [simp]: "sta_at (s\<lparr>store := st\<rparr>) p = sta_at s p"
  by (simp add: sta_at_def)

lemma StopListening_from_clears:
  "SumTriggerAction_StopListening_from s p i = Inr s' \<Longrightarrow> sta_at s p = Some t \<Longrightarrow>
   (\<forall>r a. atom_at (store s) r = Some a \<longrightarrow>
      count_list (listening a) p
        \<le> length (filter (\<lambda>v. FindAtom (store s) v = Inr r) (drop i (sta_vars t)))) \<Longrightarrow>
   (\<forall>r a. atom_at (store s') r = Some a \<longrightarrow> p \<notin> set (listening a))"
proof (induction s p i arbitrary: t rule: SumTriggerAction_StopListening_from.induct)
  case (1 s this i)
  note run = "1.prems"(1) and t = "1.prems"(2) and inv = "1.prems"(3)
  show ?case
  proof (cases "i < length (sta_vars t)")
    case False
    with run t have "s' = s"
      by (subst (asm) SumTriggerAction_StopListening_from.simps) simp
    with inv False show ?thesis by (simp add: count_list_0_iff)
  next
    case True
    with run t obtain st' where
      st': "Store_StopListening (store s) (sta_vars t ! i) this = Inr st'"
        "SumTriggerAction_StopListening_from (s\<lparr>store := st'\<rparr>) this (i + 1) = Inr s'"
      by (subst (asm) SumTriggerAction_StopListening_from.simps) (auto split: sum.splits)
    from Store_StopListening_Inr [OF st'(1)] obtain r0 a0 a0' where
      h: "FindAtom (store s) (sta_vars t ! i) = Inr r0" "atom_at (store s) r0 = Some a0"
         "Atom_StopListening a0 this = Inr a0'" "st' = put_atom (store s) r0 a0'"
      by blast
    have fa: "FindAtom st' v = FindAtom (store s) v" for v
      using h(4) by (simp add: FindAtom_def)
    have d: "drop i (sta_vars t) = sta_vars t ! i # drop (i + 1) (sta_vars t)"
      using True by (simp add: Cons_nth_drop_Suc)
    have inv': "\<forall>r a. atom_at (store (s\<lparr>store := st'\<rparr>)) r = Some a \<longrightarrow>
        count_list (listening a) this
          \<le> length (filter (\<lambda>v. FindAtom (store (s\<lparr>store := st'\<rparr>)) v = Inr r)
                      (drop (i + 1) (sta_vars t)))"
    proof (intro allI impI)
      fix r a assume a: "atom_at (store (s\<lparr>store := st'\<rparr>)) r = Some a"
      show "count_list (listening a) this
          \<le> length (filter (\<lambda>v. FindAtom (store (s\<lparr>store := st'\<rparr>)) v = Inr r)
                      (drop (i + 1) (sta_vars t)))"
      proof (cases "r = r0")
        case True
        with a h have a': "a = a0'" by (simp add: atom_at_put_atom [OF h(2)])
        from inv h(2) d h(1)
        have bound: "count_list (listening a0) this
            \<le> Suc (length (filter (\<lambda>v. FindAtom (store s) v = Inr r0)
                              (drop (i + 1) (sta_vars t))))"
          by fastforce
        from Atom_StopListening_props(6) [OF h(3)]
        have "count_list (listening a0') this = 0
            \<or> Suc (count_list (listening a0') this) = count_list (listening a0) this"
        proof
          assume "a0' = a0 \<and> this \<notin> set (listening a0)"
          then show ?thesis by (simp add: count_list_0_iff)
        next
          assume "add_mset this (mset (listening a0')) = mset (listening a0)"
          then have "count (add_mset this (mset (listening a0'))) this
              = count (mset (listening a0)) this" by simp
          then show ?thesis by (simp add: count_mset)
        qed
        with bound True a' show ?thesis by (auto simp: fa)
      next
        case False
        with a h have a': "atom_at (store s) r = Some a"
          by (simp add: atom_at_put_atom [OF h(2)])
        from False h(1) d
        have "filter (\<lambda>v. FindAtom (store s) v = Inr r) (drop i (sta_vars t))
            = filter (\<lambda>v. FindAtom (store s) v = Inr r) (drop (i + 1) (sta_vars t))"
          by auto
        moreover from inv a'
        have "count_list (listening a) this
            \<le> length (filter (\<lambda>v. FindAtom (store s) v = Inr r) (drop i (sta_vars t)))"
          by blast
        ultimately show ?thesis by (simp add: fa)
      qed
    qed
    have t': "sta_at (s\<lparr>store := st'\<rparr>) this = Some t" using t by simp
    from "1.IH" [OF t True st'(1) st'(2) t' inv'] show ?thesis .
  qed
qed

lemma StopListening_clears:
  assumes "listens_as_posted s p" "SumTriggerAction_StopListening s p = Inr s'"
  shows "not_listening s' p"
proof -
  from assms(1) obtain t where
    t: "sta_at s p = Some t"
       "\<forall>r a. atom_at (store s) r = Some a \<longrightarrow>
          count_list (listening a) p
            \<le> length (filter (\<lambda>v. FindAtom (store s) v = Inr r) (sta_vars t))"
    unfolding listens_as_posted_iff by blast
  from assms(2) have "SumTriggerAction_StopListening_from s p 0 = Inr s'"
    by (simp add: SumTriggerAction_StopListening_def)
  from StopListening_from_clears [OF this t(1)] t(2) show ?thesis
    unfolding not_listening_iff by simp
qed

lemma listens_as_posted_put_sta:
  assumes "listens_as_posted s p" "sta_at s p = Some t"
  shows "listens_as_posted (put_sta s p (t\<lparr>sta_sum := k\<rparr>)) p"
proof -
  have "store (put_sta s p (t\<lparr>sta_sum := k\<rparr>)) = store s" by (simp add: put_sta_def)
  with assms show ?thesis
    unfolding listens_as_posted_iff by (simp add: sta_at_put_sta [OF assms(2)])
qed

lemma not_listening_put_atom:
  assumes "not_listening s p" "atom_at (store s) r = Some a"
    "set (listening a') \<subseteq> set (listening a)"
  shows "not_listening (s\<lparr>store := put_atom (store s) r a'\<rparr>) p"
  unfolding not_listening_iff
proof (intro allI impI)
  fix q b assume b: "atom_at (store (s\<lparr>store := put_atom (store s) r a'\<rparr>)) q = Some b"
  show "p \<notin> set (listening b)"
  proof (cases "q = r")
    case True
    with b have "b = a'" by (simp add: atom_at_put_atom [OF assms(2)])
    with assms show ?thesis unfolding not_listening_iff by blast
  next
    case False
    with b have "atom_at (store s) q = Some b" by (simp add: atom_at_put_atom [OF assms(2)])
    with assms(1) show ?thesis unfolding not_listening_iff by blast
  qed
qed

lemma run_not_listening_imp:
  "entered_from s c \<Longrightarrow> run n s c = Some out \<Longrightarrow>
     not_listening s p \<longrightarrow>
       not_listening (final_state out) p \<and> sta_at (final_state out) p = sta_at s p"
proof (rule run_rel [where R = "\<lambda>s s'. not_listening s p \<longrightarrow>
         not_listening s' p \<and> sta_at s' p = sta_at s p"])
  fix s :: state and atom :: AtomIndex and r a
  assume "atom_at (store s) r = Some a"
  then show "not_listening s p \<longrightarrow>
      not_listening (s\<lparr>store := put_atom (store s) r (a\<lparr>flipped := True\<rparr>)\<rparr>) p
      \<and> sta_at (s\<lparr>store := put_atom (store s) r (a\<lparr>flipped := True\<rparr>)\<rparr>) p = sta_at s p"
    by (simp add: not_listening_put_atom listening_def)
next
  fix s :: state and q c
  show "not_listening s p \<longrightarrow>
      not_listening (put_slc s q (c\<lparr>slc_sum := slc_sum c + 1\<rparr>)) p
      \<and> sta_at (put_slc s q (c\<lparr>slc_sum := slc_sum c + 1\<rparr>)) p = sta_at s p"
    by (simp add: not_listening_def put_slc_def sta_at_def)
next
  fix s :: state and q t r a
  assume q: "sta_at s q = Some t" "atom_at (store s) r = Some a" "q \<in> set (listening a)"
  show "not_listening s p \<longrightarrow>
      not_listening (put_sta s q (t\<lparr>sta_sum := sta_sum t + 1\<rparr>)) p
      \<and> sta_at (put_sta s q (t\<lparr>sta_sum := sta_sum t + 1\<rparr>)) p = sta_at s p"
  proof
    assume n: "not_listening s p"
    with q have "p \<noteq> q" unfolding not_listening_iff by blast
    then have "sta_at (put_sta s q (t\<lparr>sta_sum := sta_sum t + 1\<rparr>)) p = sta_at s p"
      by (simp add: sta_at_put_sta [OF q(1)])
    moreover from n have "not_listening (put_sta s q (t\<lparr>sta_sum := sta_sum t + 1\<rparr>)) p"
      by (simp add: not_listening_def put_sta_def)
    ultimately show "not_listening (put_sta s q (t\<lparr>sta_sum := sta_sum t + 1\<rparr>)) p
      \<and> sta_at (put_sta s q (t\<lparr>sta_sum := sta_sum t + 1\<rparr>)) p = sta_at s p" by simp
  qed
next
  fix s :: state and q atom st'
  assume "Store_StopListening (store s) atom q = Inr st'"
  from Store_StopListening_Inr [OF this] obtain r a a' where
    h: "atom_at (store s) r = Some a" "Atom_StopListening a q = Inr a'"
       "st' = put_atom (store s) r a'"
    by blast
  from not_listening_put_atom [OF _ h(1) Atom_StopListening_subset [OF h(2)]] h(3)
  show "not_listening s p \<longrightarrow>
      not_listening (s\<lparr>store := st'\<rparr>) p \<and> sta_at (s\<lparr>store := st'\<rparr>) p = sta_at s p"
    by simp
qed simp_all

lemma run_not_listening:
  "entered_from s c \<Longrightarrow> run n s c = Some out \<Longrightarrow> not_listening s p \<Longrightarrow>
     not_listening (final_state out) p \<and> sta_at (final_state out) p = sta_at s p"
  using run_not_listening_imp by blast

lemma SumTriggerAction_Flip_Suc:
  "SumTriggerAction_Flip (Suc n) s this index =
     (case sta_at s this of
        None \<Rightarrow> Some (Inl (BadAccess, s))
      | Some t \<Rightarrow>
          (let s1 = put_sta s this (t\<lparr>sta_sum := sta_sum t + 1\<rparr>) in
           if sint (sta_sum t + 1) \<ge> sint (sta_constant t) then
             (case SumTriggerAction_StopListening s1 this of
                Inl e \<Rightarrow> Some (Inl e)
              | Inr s2 \<Rightarrow> FlipAllAction n s2 this)
           else Some (Inr s1)))"
  by (simp add: SumTriggerAction_Flip_def FlipAllAction_def Let_def
      split: option.splits sum.splits)

lemma and_then_mono:
  assumes "and_then r k = Some out"
    and "\<And>o1. r = Some o1 \<Longrightarrow> r' = Some o1"
    and "\<And>s o2. k s = Some o2 \<Longrightarrow> k' s = Some o2"
  shows "and_then r' k' = Some out"
proof (cases r)
  case None
  with assms(1) show ?thesis by (simp add: and_then_def)
next
  case (Some o1)
  with assms(2) have r': "r' = Some o1" by simp
  show ?thesis
  proof (cases o1)
    case (Inl e)
    with Some r' assms(1) show ?thesis by (auto simp: and_then_def)
  next
    case (Inr s1)
    with Some assms(1) have "k s1 = Some out" by (simp add: and_then_def)
    from assms(3) [OF this] Inr r' show ?thesis by (simp add: and_then_def)
  qed
qed

lemma run_Suc: "run n s c = Some out \<Longrightarrow> run (Suc n) s c = Some out"
proof (induction n arbitrary: s c out)
  case 0
  then show ?case by simp
next
  case (Suc n)
  note IH = Suc.IH
  show ?case
  proof (cases c)
    case (Store_Flip_call atom)
    show ?thesis
      unfolding Store_Flip_call
      apply (subst run.simps(2))
      apply (insert Suc.prems [unfolded Store_Flip_call run.simps(2)])
      apply (auto simp del: run.simps simp add: Let_def
          split: option.splits sum.splits if_splits bool.splits elim!: and_then_mono intro: IH)
      done
  next
    case (Atom_Flip_call this)
    show ?thesis
      unfolding Atom_Flip_call
      apply (subst run.simps(3))
      apply (insert Suc.prems [unfolded Atom_Flip_call run.simps(3)])
      apply (auto simp del: run.simps simp add: Let_def
          split: option.splits sum.splits if_splits bool.splits elim!: and_then_mono intro: IH)
      done
  next
    case (Atom_Flip_actions_call this i)
    show ?thesis
      unfolding Atom_Flip_actions_call
      apply (subst run.simps(4))
      apply (insert Suc.prems [unfolded Atom_Flip_actions_call run.simps(4)])
      apply (auto simp del: run.simps simp add: Let_def
          split: option.splits sum.splits if_splits bool.splits elim!: and_then_mono intro: IH)
      done
  next
    case (Atom_Flip_sum_less_call this i)
    show ?thesis
      unfolding Atom_Flip_sum_less_call
      apply (subst run.simps(5))
      apply (insert Suc.prems [unfolded Atom_Flip_sum_less_call run.simps(5)])
      apply (auto simp del: run.simps simp add: Let_def
          split: option.splits sum.splits if_splits bool.splits elim!: and_then_mono intro: IH)
      done
  next
    case (Atom_Flip_sum_trigger_call this i)
    show ?thesis
      unfolding Atom_Flip_sum_trigger_call
      apply (subst run.simps(6))
      apply (insert Suc.prems [unfolded Atom_Flip_sum_trigger_call run.simps(6)])
      apply (auto simp del: run.simps simp add: Let_def
          split: option.splits sum.splits if_splits bool.splits elim!: and_then_mono intro: IH)
      done
  next
    case (SumLessConstant_Flip_call this index)
    show ?thesis
      unfolding SumLessConstant_Flip_call
      apply (subst run.simps(7))
      apply (insert Suc.prems [unfolded SumLessConstant_Flip_call run.simps(7)])
      apply (auto simp del: run.simps simp add: Let_def
          split: option.splits sum.splits if_splits bool.splits elim!: and_then_mono intro: IH)
      done
  next
    case (UnflipAllPending_call this i)
    show ?thesis
      unfolding UnflipAllPending_call
      apply (subst run.simps(8))
      apply (insert Suc.prems [unfolded UnflipAllPending_call run.simps(8)])
      apply (auto simp del: run.simps simp add: Let_def
          split: option.splits sum.splits if_splits bool.splits elim!: and_then_mono intro: IH)
      done
  next
    case (SumTriggerAction_Flip_call this index)
    show ?thesis
      unfolding SumTriggerAction_Flip_call
      apply (subst run.simps(9))
      apply (insert Suc.prems [unfolded SumTriggerAction_Flip_call run.simps(9)])
      apply (auto simp del: run.simps simp add: Let_def
          split: option.splits sum.splits if_splits bool.splits elim!: and_then_mono intro: IH)
      done
  next
    case (FlipAllAction_call this i)
    show ?thesis
      unfolding FlipAllAction_call
      apply (subst run.simps(10))
      apply (insert Suc.prems [unfolded FlipAllAction_call run.simps(10)])
      apply (auto simp del: run.simps simp add: Let_def
          split: option.splits sum.splits if_splits bool.splits elim!: and_then_mono intro: IH)
      done
  qed
qed

lemma run_mono: "run n s c = Some out \<Longrightarrow> n \<le> m \<Longrightarrow> run m s c = Some out"
  by (induction m) (auto simp: le_Suc_eq dest: run_Suc)

lemma settles_const: "settles (\<lambda>m. Some out)"
  by (auto simp: settles_def)

lemma settles_run_iff: "settles (\<lambda>m. run m s c) \<longleftrightarrow> (\<exists>n out. run n s c = Some out)"
proof
  assume "settles (\<lambda>m. run m s c)"
  then show "\<exists>n out. run n s c = Some out" unfolding settles_def by blast
next
  assume "\<exists>n out. run n s c = Some out"
  then obtain n out where "run n s c = Some out" by blast
  then have "\<forall>m \<ge> n. run m s c = Some out" using run_mono by blast
  then show "settles (\<lambda>m. run m s c)" unfolding settles_def by blast
qed

lemma settles_Suc:
  assumes "\<And>m. g (Suc m) = f m" "settles f"
  shows "settles g"
proof -
  from assms(2) obtain n out where n: "\<forall>m \<ge> n. f m = Some out" unfolding settles_def by blast
  have "\<forall>m \<ge> Suc n. g m = Some out"
  proof (intro allI impI)
    fix m assume "Suc n \<le> m"
    then obtain m' where "m = Suc m'" "n \<le> m'" by (cases m) auto
    with n assms(1) show "g m = Some out" by simp
  qed
  then show ?thesis unfolding settles_def by blast
qed

lemma settles_and_then:
  assumes "settles (\<lambda>m. run m s c1)" "entered_from s c1"
    and "\<And>s1. evolves s s1 \<Longrightarrow> settles (\<lambda>m. K m s1)"
  shows "settles (\<lambda>m. and_then (run m s c1) (K m))"
proof -
  from assms(1) obtain n1 o1 where n1: "\<forall>m \<ge> n1. run m s c1 = Some o1"
    unfolding settles_def by blast
  show ?thesis
  proof (cases o1)
    case (Inl e)
    with n1 have "\<forall>m \<ge> n1. and_then (run m s c1) (K m) = Some (Inl e)"
      by (simp add: and_then_def)
    then show ?thesis unfolding settles_def by blast
  next
    case (Inr s1)
    with n1 have "run n1 s c1 = Some (Inr s1)" by simp
    from run_evolves_Inr [OF assms(2) this] have "evolves s s1" .
    from assms(3) [OF this] obtain n2 o2 where n2: "\<forall>m \<ge> n2. K m s1 = Some o2"
      unfolding settles_def by blast
    from n1 n2 Inr have "\<forall>m \<ge> max n1 n2. and_then (run m s c1) (K m) = Some o2"
      by (simp add: and_then_def)
    then show ?thesis unfolding settles_def by blast
  qed
qed

subsection \<open>The number of unflipped atoms\<close>

lemma unflipped_weight_evolves:
  "rel_option atom_evolves x y \<Longrightarrow> unflipped_weight y \<le> unflipped_weight x"
  by (cases x; cases y) (auto simp: unflipped_weight_def atom_evolves_def)

lemma unflipped_atoms_evolves:
  assumes "evolves s s'"
  shows "unflipped_atoms s' \<le> unflipped_atoms s"
proof -
  have t: "sum_list (map unflipped_weight (true_atoms (store s')))
             \<le> sum_list (map unflipped_weight (true_atoms (store s)))"
  proof (rule sum_list_mono2)
    show "length (map unflipped_weight (true_atoms (store s')))
            = length (map unflipped_weight (true_atoms (store s)))"
      using assms by (simp add: evolves_def)
    fix i
    show "i < length (map unflipped_weight (true_atoms (store s'))) \<longrightarrow>
            map unflipped_weight (true_atoms (store s')) ! i
              \<le> map unflipped_weight (true_atoms (store s)) ! i"
    proof
      assume i: "i < length (map unflipped_weight (true_atoms (store s')))"
      with assms have i': "i < length (true_atoms (store s))" "i < length (true_atoms (store s'))"
        by (simp_all add: evolves_def)
      from assms have "rel_option atom_evolves (atom_at (store s) (TrueAtom i))
          (atom_at (store s') (TrueAtom i))"
        unfolding evolves_def by blast
      with i' have "rel_option atom_evolves (true_atoms (store s) ! i) (true_atoms (store s') ! i)"
        by (simp add: atom_at.simps)
      from unflipped_weight_evolves [OF this] i' show
        "map unflipped_weight (true_atoms (store s')) ! i
              \<le> map unflipped_weight (true_atoms (store s)) ! i"
        by simp
    qed
  qed
  have f: "sum_list (map unflipped_weight (false_atoms (store s')))
             \<le> sum_list (map unflipped_weight (false_atoms (store s)))"
  proof (rule sum_list_mono2)
    show "length (map unflipped_weight (false_atoms (store s')))
            = length (map unflipped_weight (false_atoms (store s)))"
      using assms by (simp add: evolves_def)
    fix i
    show "i < length (map unflipped_weight (false_atoms (store s'))) \<longrightarrow>
            map unflipped_weight (false_atoms (store s')) ! i
              \<le> map unflipped_weight (false_atoms (store s)) ! i"
    proof
      assume i: "i < length (map unflipped_weight (false_atoms (store s')))"
      with assms have i': "i < length (false_atoms (store s))" "i < length (false_atoms (store s'))"
        by (simp_all add: evolves_def)
      from assms have "rel_option atom_evolves (atom_at (store s) (FalseAtom i))
          (atom_at (store s') (FalseAtom i))"
        unfolding evolves_def by blast
      with i' have "rel_option atom_evolves (false_atoms (store s) ! i) (false_atoms (store s') ! i)"
        by (simp add: atom_at.simps)
      from unflipped_weight_evolves [OF this] i' show
        "map unflipped_weight (false_atoms (store s')) ! i
              \<le> map unflipped_weight (false_atoms (store s)) ! i"
        by simp
    qed
  qed
  from t f show ?thesis by (simp add: unflipped_atoms_def)
qed

lemma sum_list_weight_update:
  assumes "i < length xs" "unflipped_weight (xs ! i) = 1" "unflipped_weight y = 0"
  shows "Suc (sum_list (map unflipped_weight (xs[i := y]))) = sum_list (map unflipped_weight xs)"
proof -
  have "sum_list ((map unflipped_weight xs)[i := unflipped_weight y])
          = sum_list (map unflipped_weight xs) + unflipped_weight y - map unflipped_weight xs ! i"
    using assms(1) by (simp add: sum_list_update)
  moreover have "map unflipped_weight xs ! i \<le> sum_list (map unflipped_weight xs)"
    using assms(1) elem_le_sum_list [of i "map unflipped_weight xs"] by simp
  ultimately show ?thesis using assms by (simp add: map_update)
qed

lemma unflipped_atoms_flag:
  assumes "atom_at (store s) r = Some a" "\<not> flipped a"
  shows "unflipped_atoms (s\<lparr>store := put_atom (store s) r (a\<lparr>flipped := True\<rparr>)\<rparr>)
           < unflipped_atoms s"
proof (cases r)
  case (TrueAtom i)
  with assms have i: "i < length (true_atoms (store s))" "true_atoms (store s) ! i = Some a"
    by (simp_all add: atom_at_TrueAtom)
  with assms(2) have "Suc (sum_list (map unflipped_weight
        ((true_atoms (store s))[i := Some (a\<lparr>flipped := True\<rparr>)])))
      = sum_list (map unflipped_weight (true_atoms (store s)))"
    by (intro sum_list_weight_update) (simp_all add: unflipped_weight_def)
  with TrueAtom show ?thesis by (simp add: unflipped_atoms_def put_atom.simps)
next
  case (FalseAtom i)
  with assms have i: "i < length (false_atoms (store s))" "false_atoms (store s) ! i = Some a"
    by (simp_all add: atom_at_FalseAtom)
  with assms(2) have "Suc (sum_list (map unflipped_weight
        ((false_atoms (store s))[i := Some (a\<lparr>flipped := True\<rparr>)])))
      = sum_list (map unflipped_weight (false_atoms (store s)))"
    by (intro sum_list_weight_update) (simp_all add: unflipped_weight_def)
  with FalseAtom show ?thesis by (simp add: unflipped_atoms_def put_atom.simps)
qed

lemma unflipped_atoms_put_slc [simp]: "unflipped_atoms (put_slc s p c) = unflipped_atoms s"
  by (simp add: unflipped_atoms_def put_slc_def)

lemma unflipped_atoms_put_sta [simp]: "unflipped_atoms (put_sta s p t) = unflipped_atoms s"
  by (simp add: unflipped_atoms_def put_sta_def)

lemma StopListening_evolves:
  "SumTriggerAction_StopListening s p = Inr s' \<Longrightarrow> evolves s s'"
  using StopListening_from_rel [where R = evolves and s = s and p = p and i = 0,
      OF evolves_refl evolves_trans evolves_stop]
  by (simp add: SumTriggerAction_StopListening_def)

lemma settles_if:
  "(c \<Longrightarrow> settles f) \<Longrightarrow> (\<not> c \<Longrightarrow> settles g) \<Longrightarrow> settles (\<lambda>m. if c then f m else g m)"
  by (cases c) simp_all

lemma settles_case_sum:
  "(\<And>e. x = Inl e \<Longrightarrow> settles (\<lambda>m. f m e)) \<Longrightarrow> (\<And>v. x = Inr v \<Longrightarrow> settles (\<lambda>m. g m v)) \<Longrightarrow>
     settles (\<lambda>m. case x of Inl e \<Rightarrow> f m e | Inr v \<Rightarrow> g m v)"
  by (cases x) simp_all

lemma settles_case_option:
  "(x = None \<Longrightarrow> settles f) \<Longrightarrow> (\<And>v. x = Some v \<Longrightarrow> settles (\<lambda>m. g m v)) \<Longrightarrow>
     settles (\<lambda>m. case x of None \<Rightarrow> f m | Some v \<Rightarrow> g m v)"
  by (cases x) simp_all

lemma settles_case_bool:
  "(b \<Longrightarrow> settles f) \<Longrightarrow> (\<not> b \<Longrightarrow> settles g) \<Longrightarrow>
     settles (\<lambda>m. case b of True \<Rightarrow> f m | False \<Rightarrow> g m)"
  by (cases b) simp_all

lemmas settles_intros =
  settles_if settles_case_sum settles_case_option settles_case_bool settles_const

lemma halts_Atom_Flip:
  assumes H: "\<And>s' c'. unflipped_atoms s' < k \<Longrightarrow> settles (\<lambda>m. run m s' c')"
    and k: "unflipped_atoms s \<le> k"
  shows "settles (\<lambda>m. run m s (Atom_Flip_call this))"
proof (cases "atom_at (store s) this")
  case None
  have "settles (\<lambda>m. Some (Inl (BadAccess, s)))" by (rule settles_const)
  then show ?thesis by (rule settles_Suc [rotated]) (simp add: None)
next
  case (Some a)
  show ?thesis
  proof (cases "flipped a")
    case True
    have "settles (\<lambda>m. Some (Inl (CheckFailed, s)))" by (rule settles_const)
    then show ?thesis by (rule settles_Suc [rotated]) (simp add: Some True)
  next
    case False
    let ?s1 = "s\<lparr>store := put_atom (store s) this (a\<lparr>flipped := True\<rparr>)\<rparr>"
    from unflipped_atoms_flag [OF Some False] k have s1: "unflipped_atoms ?s1 < k" by simp
    have "settles (\<lambda>m. and_then (run m ?s1 (Atom_Flip_actions_call this 0))
            (\<lambda>s1. and_then (run m s1 (Atom_Flip_sum_less_call this 0))
            (\<lambda>s2. run m s2 (Atom_Flip_sum_trigger_call this 0))))"
    proof (rule settles_and_then)
      show "settles (\<lambda>m. run m ?s1 (Atom_Flip_actions_call this 0))" by (rule H [OF s1])
      show "entered_from ?s1 (Atom_Flip_actions_call this 0)" by simp
      fix s2 assume e2: "evolves ?s1 s2"
      with s1 unflipped_atoms_evolves [OF e2] have s2: "unflipped_atoms s2 < k" by simp
      show "settles (\<lambda>m. and_then (run m s2 (Atom_Flip_sum_less_call this 0))
              (\<lambda>s2. run m s2 (Atom_Flip_sum_trigger_call this 0)))"
      proof (rule settles_and_then)
        show "settles (\<lambda>m. run m s2 (Atom_Flip_sum_less_call this 0))" by (rule H [OF s2])
        show "entered_from s2 (Atom_Flip_sum_less_call this 0)" by simp
        fix s3 assume e3: "evolves s2 s3"
        with s2 unflipped_atoms_evolves [OF e3] have "unflipped_atoms s3 < k" by simp
        then show "settles (\<lambda>m. run m s3 (Atom_Flip_sum_trigger_call this 0))" by (rule H)
      qed
    qed
    then show ?thesis by (rule settles_Suc [rotated]) (simp add: Some False)
  qed
qed

lemma halts_Store_Flip:
  assumes A: "\<And>r. settles (\<lambda>m. run m s (Atom_Flip_call r))"
  shows "settles (\<lambda>m. run m s (Store_Flip_call atom))"
proof -
  have "settles (\<lambda>m.
     (if atom = kFailAtom \<or> Store_IsFlipped (store s) (- atom) = Inr True
      then Some (Inl (SolverFail, s))
      else (case Store_IsFlipped (store s) (- atom) of
              Inl e \<Rightarrow> Some (Inl (e, s))
            | Inr b \<Rightarrow>
                (case FindAtom (store s) atom of
                   Inl e \<Rightarrow> Some (Inl (e, s))
                 | Inr r \<Rightarrow> run m s (Atom_Flip_call r)))))"
    by (intro settles_intros A)
  then show ?thesis by (rule settles_Suc [rotated]) simp
qed

lemma halts_Atom_Flip_actions:
  assumes B: "\<And>s' atom. unflipped_atoms s' \<le> k \<Longrightarrow> settles (\<lambda>m. run m s' (Store_Flip_call atom))"
  shows "unflipped_atoms s \<le> k \<Longrightarrow> settles (\<lambda>m. run m s (Atom_Flip_actions_call this i))"
proof (induction "case atom_at (store s) this of None \<Rightarrow> 0 | Some a \<Rightarrow> length (atom_actions a) - i"
    arbitrary: s i)
  case 0
  have "settles (\<lambda>m. case atom_at (store s) this of
        None \<Rightarrow> Some (Inl (BadAccess, s))
      | Some a \<Rightarrow> Some (Inr s))"
    by (intro settles_intros)
  then show ?case
    by (rule settles_Suc [rotated]) (use "0.hyps" in \<open>auto split: option.splits\<close>)
next
  case (Suc d)
  from Suc.hyps(2) obtain a where a: "atom_at (store s) this = Some a"
    "Suc d = length (atom_actions a) - i"
    by (auto split: option.splits)
  have "settles (\<lambda>m. and_then (run m s (Store_Flip_call (atom_actions a ! i)))
               (\<lambda>s'. run m s' (Atom_Flip_actions_call this (i + 1))))"
  proof (rule settles_and_then)
    show "settles (\<lambda>m. run m s (Store_Flip_call (atom_actions a ! i)))"
      by (rule B [OF Suc.prems])
    show "entered_from s (Store_Flip_call (atom_actions a ! i))" by simp
    fix s1 assume e: "evolves s s1"
    from evolves_atom_at [OF e a(1)] obtain a1 where
      a1: "atom_at (store s1) this = Some a1" "atom_actions a1 = atom_actions a"
      by (auto simp: atom_evolves_def)
    with a(2) have "d = (case atom_at (store s1) this of None \<Rightarrow> 0
        | Some a \<Rightarrow> length (atom_actions a) - (i + 1))" by simp
    moreover from unflipped_atoms_evolves [OF e] Suc.prems have "unflipped_atoms s1 \<le> k" by simp
    ultimately show "settles (\<lambda>m. run m s1 (Atom_Flip_actions_call this (i + 1)))"
      by (rule Suc.hyps(1))
  qed
  then show ?case by (rule settles_Suc [rotated]) (use a in auto)
qed

lemma halts_UnflipAllPending:
  assumes B: "\<And>s' atom. unflipped_atoms s' \<le> k \<Longrightarrow> settles (\<lambda>m. run m s' (Store_Flip_call atom))"
  shows "unflipped_atoms s \<le> k \<Longrightarrow> settles (\<lambda>m. run m s (UnflipAllPending_call this i))"
proof (induction "case slc_at s this of None \<Rightarrow> 0 | Some c \<Rightarrow> length (slc_vars c) - i"
    arbitrary: s i)
  case 0
  have "settles (\<lambda>m. case slc_at s this of
        None \<Rightarrow> Some (Inl (BadAccess, s))
      | Some c \<Rightarrow> Some (Inr s))"
    by (intro settles_intros)
  then show ?case
    by (rule settles_Suc [rotated]) (use "0.hyps" in \<open>auto split: option.splits\<close>)
next
  case (Suc d)
  from Suc.hyps(2) obtain c where c: "slc_at s this = Some c" "Suc d = length (slc_vars c) - i"
    by (auto split: option.splits)
  have same: "settles (\<lambda>m. run m s (UnflipAllPending_call this (i + 1)))"
  proof (rule Suc.hyps(1))
    from c show "d = (case slc_at s this of None \<Rightarrow> 0 | Some c \<Rightarrow> length (slc_vars c) - (i + 1))"
      by simp
  qed (rule Suc.prems)
  have flip: "settles (\<lambda>m. and_then (run m s (Store_Flip_call (- (slc_vars c ! i))))
               (\<lambda>s'. run m s' (UnflipAllPending_call this (i + 1))))"
  proof (rule settles_and_then)
    show "settles (\<lambda>m. run m s (Store_Flip_call (- (slc_vars c ! i))))"
      by (rule B [OF Suc.prems])
    show "entered_from s (Store_Flip_call (- (slc_vars c ! i)))" by simp
    fix s1 assume e: "evolves s s1"
    from evolves_slc_at [OF e c(1)] obtain c1 where
      c1: "slc_at s1 this = Some c1" "slc_vars c1 = slc_vars c" by blast
    with c(2) have "d = (case slc_at s1 this of None \<Rightarrow> 0
        | Some c \<Rightarrow> length (slc_vars c) - (i + 1))" by simp
    moreover from unflipped_atoms_evolves [OF e] Suc.prems have "unflipped_atoms s1 \<le> k" by simp
    ultimately show "settles (\<lambda>m. run m s1 (UnflipAllPending_call this (i + 1)))"
      by (rule Suc.hyps(1))
  qed
  have "settles (\<lambda>m. case Store_IsFlipped (store s) (slc_vars c ! i) of
                Inl e \<Rightarrow> Some (Inl (e, s))
              | Inr True \<Rightarrow> run m s (UnflipAllPending_call this (i + 1))
              | Inr False \<Rightarrow>
                  and_then (run m s (Store_Flip_call (- (slc_vars c ! i))))
                    (\<lambda>s'. run m s' (UnflipAllPending_call this (i + 1))))"
    by (intro settles_intros same flip)
  then show ?case by (rule settles_Suc [rotated]) (use c in auto)
qed

lemma halts_FlipAllAction:
  assumes B: "\<And>s' atom. unflipped_atoms s' \<le> k \<Longrightarrow> settles (\<lambda>m. run m s' (Store_Flip_call atom))"
  shows "unflipped_atoms s \<le> k \<Longrightarrow> settles (\<lambda>m. run m s (FlipAllAction_call this i))"
proof (induction "case sta_at s this of None \<Rightarrow> 0 | Some t \<Rightarrow> length (sta_actions t) - i"
    arbitrary: s i)
  case 0
  have "settles (\<lambda>m. case sta_at s this of
        None \<Rightarrow> Some (Inl (BadAccess, s))
      | Some t \<Rightarrow> Some (Inr s))"
    by (intro settles_intros)
  then show ?case
    by (rule settles_Suc [rotated]) (use "0.hyps" in \<open>auto split: option.splits\<close>)
next
  case (Suc d)
  from Suc.hyps(2) obtain t where t: "sta_at s this = Some t" "Suc d = length (sta_actions t) - i"
    by (auto split: option.splits)
  have "settles (\<lambda>m. and_then (run m s (Store_Flip_call (sta_actions t ! i)))
               (\<lambda>s'. run m s' (FlipAllAction_call this (i + 1))))"
  proof (rule settles_and_then)
    show "settles (\<lambda>m. run m s (Store_Flip_call (sta_actions t ! i)))"
      by (rule B [OF Suc.prems])
    show "entered_from s (Store_Flip_call (sta_actions t ! i))" by simp
    fix s1 assume e: "evolves s s1"
    from evolves_sta_at [OF e t(1)] obtain t1 where
      t1: "sta_at s1 this = Some t1" "sta_actions t1 = sta_actions t" by blast
    with t(2) have "d = (case sta_at s1 this of None \<Rightarrow> 0
        | Some t \<Rightarrow> length (sta_actions t) - (i + 1))" by simp
    moreover from unflipped_atoms_evolves [OF e] Suc.prems have "unflipped_atoms s1 \<le> k" by simp
    ultimately show "settles (\<lambda>m. run m s1 (FlipAllAction_call this (i + 1)))"
      by (rule Suc.hyps(1))
  qed
  then show ?case by (rule settles_Suc [rotated]) (use t in auto)
qed

lemma halts_SumLessConstant_Flip:
  assumes C: "\<And>s'. unflipped_atoms s' \<le> k \<Longrightarrow>
      settles (\<lambda>m. run m s' (UnflipAllPending_call this 0))"
    and k: "unflipped_atoms s \<le> k"
  shows "settles (\<lambda>m. run m s (SumLessConstant_Flip_call this index))"
proof -
  have "settles (\<lambda>m. case slc_at s this of
        None \<Rightarrow> Some (Inl (BadAccess, s))
      | Some c \<Rightarrow>
          (let s1 = put_slc s this (c\<lparr>slc_sum := slc_sum c + 1\<rparr>) in
           if sint (slc_sum c + 1) > sint (slc_constant c) then Some (Inl (SolverFail, s1))
           else if slc_sum c + 1 = slc_constant c then run m s1 (UnflipAllPending_call this 0)
           else Some (Inr s1)))"
    unfolding Let_def by (intro settles_intros C) (simp add: k)
  then show ?thesis by (rule settles_Suc [rotated]) simp
qed

lemma halts_SumTriggerAction_Flip:
  assumes C: "\<And>s'. unflipped_atoms s' \<le> k \<Longrightarrow>
      settles (\<lambda>m. run m s' (FlipAllAction_call this 0))"
    and k: "unflipped_atoms s \<le> k"
  shows "settles (\<lambda>m. run m s (SumTriggerAction_Flip_call this index))"
proof -
  have "settles (\<lambda>m. run m s2 (FlipAllAction_call this 0))"
    if "SumTriggerAction_StopListening (put_sta s this t) this = Inr s2" for t s2
  proof -
    from unflipped_atoms_evolves [OF StopListening_evolves [OF that]] k
    have "unflipped_atoms s2 \<le> k" by simp
    then show ?thesis by (rule C)
  qed
  then have "settles (\<lambda>m. case sta_at s this of
        None \<Rightarrow> Some (Inl (BadAccess, s))
      | Some t \<Rightarrow>
          (let s1 = put_sta s this (t\<lparr>sta_sum := sta_sum t + 1\<rparr>) in
           if sint (sta_sum t + 1) \<ge> sint (sta_constant t) then
             (case SumTriggerAction_StopListening s1 this of
                Inl e \<Rightarrow> Some (Inl e)
              | Inr s2 \<Rightarrow> run m s2 (FlipAllAction_call this 0))
           else Some (Inr s1)))"
    unfolding Let_def by (intro settles_intros) blast
  then show ?thesis by (rule settles_Suc [rotated]) simp
qed

lemma halts_Atom_Flip_sum_less:
  assumes D: "\<And>s' p index. unflipped_atoms s' \<le> k \<Longrightarrow>
      settles (\<lambda>m. run m s' (SumLessConstant_Flip_call p index))"
  shows "unflipped_atoms s \<le> k \<Longrightarrow> settles (\<lambda>m. run m s (Atom_Flip_sum_less_call this i))"
proof (induction "case atom_at (store s) this of None \<Rightarrow> 0
    | Some a \<Rightarrow> length (atom_sum_less_constant_constraints a) - i" arbitrary: s i)
  case 0
  have "settles (\<lambda>m. case atom_at (store s) this of
        None \<Rightarrow> Some (Inl (BadAccess, s))
      | Some a \<Rightarrow> Some (Inr s))"
    by (intro settles_intros)
  then show ?case
    by (rule settles_Suc [rotated]) (use "0.hyps" in \<open>auto split: option.splits\<close>)
next
  case (Suc d)
  from Suc.hyps(2) obtain a where a: "atom_at (store s) this = Some a"
    "Suc d = length (atom_sum_less_constant_constraints a) - i"
    by (auto split: option.splits)
  have "settles (\<lambda>m. and_then (run m s (SumLessConstant_Flip_call
                                  (atom_sum_less_constant_constraints a ! i) (atom_index a)))
               (\<lambda>s'. run m s' (Atom_Flip_sum_less_call this (i + 1))))"
  proof (rule settles_and_then)
    show "settles (\<lambda>m. run m s (SumLessConstant_Flip_call
                                  (atom_sum_less_constant_constraints a ! i) (atom_index a)))"
      by (rule D [OF Suc.prems])
    show "entered_from s (SumLessConstant_Flip_call
                                  (atom_sum_less_constant_constraints a ! i) (atom_index a))"
      by simp
    fix s1 assume e: "evolves s s1"
    from evolves_atom_at [OF e a(1)] obtain a1 where
      a1: "atom_at (store s1) this = Some a1"
        "atom_sum_less_constant_constraints a1 = atom_sum_less_constant_constraints a"
      by (auto simp: atom_evolves_def)
    with a(2) have "d = (case atom_at (store s1) this of None \<Rightarrow> 0
        | Some a \<Rightarrow> length (atom_sum_less_constant_constraints a) - (i + 1))" by simp
    moreover from unflipped_atoms_evolves [OF e] Suc.prems have "unflipped_atoms s1 \<le> k" by simp
    ultimately show "settles (\<lambda>m. run m s1 (Atom_Flip_sum_less_call this (i + 1)))"
      by (rule Suc.hyps(1))
  qed
  then show ?case by (rule settles_Suc [rotated]) (use a in auto)
qed

lemma halts_Atom_Flip_sum_trigger:
  assumes D: "\<And>s' p index. unflipped_atoms s' \<le> k \<Longrightarrow>
      settles (\<lambda>m. run m s' (SumTriggerAction_Flip_call p index))"
  shows "unflipped_atoms s \<le> k \<Longrightarrow> settles (\<lambda>m. run m s (Atom_Flip_sum_trigger_call this i))"
proof (induction "case atom_at (store s) this of None \<Rightarrow> 0
    | Some a \<Rightarrow> length (elements (atom_sum_trigger_actions_constraints a)) - i" arbitrary: s i)
  case 0
  have "Element (atom_sum_trigger_actions_constraints a) i = Inl CheckFailed
      \<or> Element (atom_sum_trigger_actions_constraints a) i = Inl BadAccess"
    if "atom_at (store s) this = Some a" for a
    using that "0.hyps" by (auto simp: Element_def)
  then have "settles (\<lambda>m. case atom_at (store s) this of
        None \<Rightarrow> Some (Inl (BadAccess, s))
      | Some a \<Rightarrow>
          (if i < size_of (atom_sum_trigger_actions_constraints a) then
             (case Element (atom_sum_trigger_actions_constraints a) i of
                Inl e \<Rightarrow> Some (Inl (e, s))
              | Inr ct \<Rightarrow>
                  and_then (run m s (SumTriggerAction_Flip_call ct (atom_index a)))
                    (\<lambda>s'. run m s' (Atom_Flip_sum_trigger_call this (i + 1))))
           else Some (Inr s)))"
    by (intro settles_intros) auto
  then show ?case by (rule settles_Suc [rotated]) simp
next
  case (Suc d)
  from Suc.hyps(2) obtain a where a: "atom_at (store s) this = Some a"
    "Suc d = length (elements (atom_sum_trigger_actions_constraints a)) - i"
    by (auto split: option.splits)
  have "settles (\<lambda>m. and_then (run m s (SumTriggerAction_Flip_call ct (atom_index a)))
               (\<lambda>s'. run m s' (Atom_Flip_sum_trigger_call this (i + 1))))"
    if ct: "Element (atom_sum_trigger_actions_constraints a) i = Inr ct" for ct
  proof (rule settles_and_then)
    show "settles (\<lambda>m. run m s (SumTriggerAction_Flip_call ct (atom_index a)))"
      by (rule D [OF Suc.prems])
    from a(1) Element_listening [OF ct]
    show "entered_from s (SumTriggerAction_Flip_call ct (atom_index a))" by auto
    fix s1 assume e: "evolves s s1"
    from evolves_atom_at [OF e a(1)] obtain a1 where
      a1: "atom_at (store s1) this = Some a1"
        "length (elements (atom_sum_trigger_actions_constraints a1))
           = length (elements (atom_sum_trigger_actions_constraints a))"
      by (auto simp: atom_evolves_def)
    with a(2) have "d = (case atom_at (store s1) this of None \<Rightarrow> 0
        | Some a \<Rightarrow> length (elements (atom_sum_trigger_actions_constraints a)) - (i + 1))"
      by simp
    moreover from unflipped_atoms_evolves [OF e] Suc.prems have "unflipped_atoms s1 \<le> k" by simp
    ultimately show "settles (\<lambda>m. run m s1 (Atom_Flip_sum_trigger_call this (i + 1)))"
      by (rule Suc.hyps(1))
  qed
  then have "settles (\<lambda>m.
          (if i < size_of (atom_sum_trigger_actions_constraints a) then
             (case Element (atom_sum_trigger_actions_constraints a) i of
                Inl e \<Rightarrow> Some (Inl (e, s))
              | Inr ct \<Rightarrow>
                  and_then (run m s (SumTriggerAction_Flip_call ct (atom_index a)))
                    (\<lambda>s'. run m s' (Atom_Flip_sum_trigger_call this (i + 1))))
           else Some (Inr s)))"
    by (intro settles_intros) blast
  then show ?case by (rule settles_Suc [rotated]) (use a in auto)
qed

lemma halts_bounded: "unflipped_atoms s \<le> k \<Longrightarrow> settles (\<lambda>m. run m s c)"
proof (induction k arbitrary: s c rule: less_induct)
  case (less k)
  have H: "settles (\<lambda>m. run m s' c')" if "unflipped_atoms s' < k" for s' c'
    using less.IH [OF that order_refl] .
  have A: "settles (\<lambda>m. run m s' (Atom_Flip_call r))" if "unflipped_atoms s' \<le> k" for s' r
    using H that by (rule halts_Atom_Flip)
  have B: "settles (\<lambda>m. run m s' (Store_Flip_call atom))" if "unflipped_atoms s' \<le> k" for s' atom
    by (rule halts_Store_Flip) (rule A [OF that])
  have C1: "settles (\<lambda>m. run m s' (Atom_Flip_actions_call r i))"
    if "unflipped_atoms s' \<le> k" for s' r i
    using B that by (rule halts_Atom_Flip_actions)
  have C2: "settles (\<lambda>m. run m s' (UnflipAllPending_call p i))"
    if "unflipped_atoms s' \<le> k" for s' p i
    using B that by (rule halts_UnflipAllPending)
  have C3: "settles (\<lambda>m. run m s' (FlipAllAction_call p i))"
    if "unflipped_atoms s' \<le> k" for s' p i
    using B that by (rule halts_FlipAllAction)
  have D1: "settles (\<lambda>m. run m s' (SumLessConstant_Flip_call p index))"
    if "unflipped_atoms s' \<le> k" for s' p index
    using C2 that by (rule halts_SumLessConstant_Flip)
  have D2: "settles (\<lambda>m. run m s' (SumTriggerAction_Flip_call p index))"
    if "unflipped_atoms s' \<le> k" for s' p index
    using C3 that by (rule halts_SumTriggerAction_Flip)
  have E1: "settles (\<lambda>m. run m s' (Atom_Flip_sum_less_call r i))"
    if "unflipped_atoms s' \<le> k" for s' r i
    using D1 that by (rule halts_Atom_Flip_sum_less)
  have E2: "settles (\<lambda>m. run m s' (Atom_Flip_sum_trigger_call r i))"
    if "unflipped_atoms s' \<le> k" for s' r i
    using D2 that by (rule halts_Atom_Flip_sum_trigger)
  from less.prems show ?case
    by (cases c) (simp_all add: A B C1 C2 C3 D1 D2 E1 E2)
qed

lemma cascade_halts: "\<exists>n out. run n s c = Some out"
  using halts_bounded [of s "unflipped_atoms s" c] by (simp add: settles_run_iff)

lemma never_listened_iff:
  "never_listened s p \<longleftrightarrow>
     (\<forall>r a. atom_at (store s) r = Some a \<longrightarrow>
        p \<notin> set (elements (atom_sum_trigger_actions_constraints a)))"
proof
  assume h: "never_listened s p"
  show "\<forall>r a. atom_at (store s) r = Some a \<longrightarrow>
        p \<notin> set (elements (atom_sum_trigger_actions_constraints a))"
  proof (intro allI impI)
    fix r a assume a: "atom_at (store s) r = Some a"
    from atom_at_refs [OF a] h have "case atom_at (store s) r of None \<Rightarrow> True
        | Some a \<Rightarrow> p \<notin> set (elements (atom_sum_trigger_actions_constraints a))"
      unfolding never_listened_def by blast
    with a show "p \<notin> set (elements (atom_sum_trigger_actions_constraints a))" by simp
  qed
next
  assume "\<forall>r a. atom_at (store s) r = Some a \<longrightarrow>
        p \<notin> set (elements (atom_sum_trigger_actions_constraints a))"
  then show "never_listened s p"
    unfolding never_listened_def by (auto split: option.splits)
qed

lemma count_list_take: "count_list (take n xs) x \<le> count_list xs x"
proof (induction xs arbitrary: n)
  case Nil
  then show ?case by simp
next
  case (Cons y ys)
  show ?case
  proof (cases n)
    case 0
    then show ?thesis by simp
  next
    case (Suc m)
    with Cons.IH [of m] show ?thesis by simp
  qed
qed

lemma Store_Listen_SumTriggerAction_Inr:
  "Store_Listen_SumTriggerAction st v p = Inr st' \<Longrightarrow>
     \<exists>r a. FindAtom st v = Inr r \<and> atom_at st r = Some a
           \<and> st' = put_atom st r (Atom_Listen_SumTriggerAction a p)"
  by (auto simp: Store_Listen_SumTriggerAction_def FindAtom_deref_def
      split: sum.splits option.splits)

lemma Post_from_counts:
  "SumTriggerAction_Post_from st p vs = Inr st' \<Longrightarrow>
   (\<forall>r a. atom_at st r = Some a \<longrightarrow>
      count_list (elements (atom_sum_trigger_actions_constraints a)) p \<le> n r) \<Longrightarrow>
   (\<forall>v. FindAtom st' v = FindAtom st v)
   \<and> (\<forall>r a. atom_at st' r = Some a \<longrightarrow>
        count_list (elements (atom_sum_trigger_actions_constraints a)) p
          \<le> n r + length (filter (\<lambda>v. FindAtom st v = Inr r) vs))"
proof (induction vs arbitrary: st n)
  case Nil
  then show ?case by simp
next
  case (Cons v vs)
  from Cons.prems(1) obtain st1 where
    st1: "Store_Listen_SumTriggerAction st v p = Inr st1"
      "SumTriggerAction_Post_from st1 p vs = Inr st'"
    by (auto split: sum.splits)
  from Store_Listen_SumTriggerAction_Inr [OF st1(1)] obtain r0 a0 where
    h: "FindAtom st v = Inr r0" "atom_at st r0 = Some a0"
       "st1 = put_atom st r0 (Atom_Listen_SumTriggerAction a0 p)"
    by blast
  have fa: "FindAtom st1 w = FindAtom st w" for w
    using h(3) by (simp add: FindAtom_def)
  let ?n = "n(r0 := Suc (n r0))"
  have inv: "\<forall>r a. atom_at st1 r = Some a \<longrightarrow>
      count_list (elements (atom_sum_trigger_actions_constraints a)) p \<le> ?n r"
  proof (intro allI impI)
    fix r a assume a: "atom_at st1 r = Some a"
    show "count_list (elements (atom_sum_trigger_actions_constraints a)) p \<le> ?n r"
    proof (cases "r = r0")
      case True
      with a h have "a = Atom_Listen_SumTriggerAction a0 p"
        by (simp add: atom_at_put_atom [OF h(2)])
      moreover from Cons.prems(2) h(2)
      have "count_list (elements (atom_sum_trigger_actions_constraints a0)) p \<le> n r0" by blast
      ultimately show ?thesis using True
        by (simp add: Atom_Listen_SumTriggerAction_def Insert_def)
    next
      case False
      with a h have "atom_at st r = Some a" by (simp add: atom_at_put_atom [OF h(2)])
      with Cons.prems(2) False show ?thesis by auto
    qed
  qed
  from Cons.IH [OF st1(2) inv]
  have IH: "\<forall>w. FindAtom st' w = FindAtom st1 w"
    "\<forall>r a. atom_at st' r = Some a \<longrightarrow>
        count_list (elements (atom_sum_trigger_actions_constraints a)) p
          \<le> ?n r + length (filter (\<lambda>w. FindAtom st1 w = Inr r) vs)"
    by blast+
  show ?case
  proof (intro conjI allI impI)
    fix w from IH(1) fa show "FindAtom st' w = FindAtom st w" by simp
  next
    fix r a assume "atom_at st' r = Some a"
    with IH(2) have "count_list (elements (atom_sum_trigger_actions_constraints a)) p
          \<le> ?n r + length (filter (\<lambda>w. FindAtom st1 w = Inr r) vs)" by blast
    with h(1) show "count_list (elements (atom_sum_trigger_actions_constraints a)) p
          \<le> n r + length (filter (\<lambda>w. FindAtom st w = Inr r) (v # vs))"
      by (cases "r = r0") (auto simp: fa)
  qed
qed

lemma Post_listens_as_posted:
  assumes "never_listened s p" "SumTriggerAction_Post s p = Inr s'"
  shows "listens_as_posted s' p"
proof -
  from assms(2) obtain t st' where
    t: "sta_at s p = Some t"
       "SumTriggerAction_Post_from (Register_SumTriggerAction (store s) p) p (sta_vars t) = Inr st'"
       "s' = s\<lparr>store := st'\<rparr>"
    by (auto simp: SumTriggerAction_Post_def split: option.splits sum.splits)
  let ?st0 = "Register_SumTriggerAction (store s) p"
  have at0: "atom_at ?st0 r = atom_at (store s) r" for r
    by (cases r) (simp_all add: Register_SumTriggerAction_def atom_at.simps)
  from assms(1) have "\<forall>r a. atom_at ?st0 r = Some a \<longrightarrow>
      count_list (elements (atom_sum_trigger_actions_constraints a)) p \<le> (\<lambda>r. 0) r"
    unfolding never_listened_iff by (simp add: at0 count_list_0_iff)
  from Post_from_counts [OF t(2) this]
  have c: "\<forall>v. FindAtom st' v = FindAtom ?st0 v"
    "\<forall>r a. atom_at st' r = Some a \<longrightarrow>
        count_list (elements (atom_sum_trigger_actions_constraints a)) p
          \<le> length (filter (\<lambda>v. FindAtom ?st0 v = Inr r) (sta_vars t))"
    by simp_all
  have "\<forall>r a. atom_at (store s') r = Some a \<longrightarrow>
      count_list (listening a) p
        \<le> length (filter (\<lambda>v. FindAtom (store s') v = Inr r) (sta_vars t))"
  proof (intro allI impI)
    fix r a assume "atom_at (store s') r = Some a"
    with c(2) t(3) have "count_list (elements (atom_sum_trigger_actions_constraints a)) p
          \<le> length (filter (\<lambda>v. FindAtom ?st0 v = Inr r) (sta_vars t))" by simp
    moreover have "count_list (listening a) p
        \<le> count_list (elements (atom_sum_trigger_actions_constraints a)) p"
      unfolding listening_def by (rule count_list_take)
    ultimately show "count_list (listening a) p
        \<le> length (filter (\<lambda>v. FindAtom (store s') v = Inr r) (sta_vars t))"
      using c(1) t(3) by simp
  qed
  with t show ?thesis unfolding listens_as_posted_iff by simp
qed

lemma VariableBound_consistent:
  assumes "consistent (store s)" "VariableBound var_Min n s index = Some out"
  shows "consistent (store (final_state out))"
proof (cases "index < length (indices (store s))")
  case False
  with assms show ?thesis by (auto simp: VariableBound_def)
next
  case True
  with assms(2) obtain atom where "run n s (Store_Flip_call atom) = Some out"
    by (auto simp: VariableBound_def Store_Flip_def split: if_splits)
  from run_consistent [OF _ this assms(1)] show ?thesis by simp
qed

lemma sint_Incr:
  fixes x :: int32
  assumes "sint x < 2147483647"
  shows "sint (x + 1) = sint x + 1"
proof -
  have "- 2147483648 \<le> sint x" using sint_ge [of x] by simp
  with assms show ?thesis
    by (simp add: sint_word_ariths signed_take_bit_int_eq_self)
qed

lemma sint_Incr_wraps:
  fixes x :: int32
  assumes "sint x = 2147483647"
  shows "sint (x + 1) = - 2147483648"
proof -
  from assms have "sint x = sint (2147483647 :: int32)" by simp
  then have "x = 2147483647" by (rule signed_word_eqI)
  then show ?thesis by simp
qed

lemma and_then_Inl:
  "and_then r k = Some (Inl x) \<Longrightarrow>
     r = Some (Inl x) \<or> (\<exists>s1. r = Some (Inr s1) \<and> k s1 = Some (Inl x))"
  by (auto simp: and_then_def split: option.splits sum.splits)

lemma IsFlipped_not_SolverFail: "Store_IsFlipped st atom \<noteq> Inl SolverFail"
  by (auto simp: Store_IsFlipped_def FindAtom_deref_def FindAtom_def
      split: sum.splits option.splits if_splits)

lemma evolves_IsFlipped_Inr:
  assumes "evolves s s'" "Store_IsFlipped (store s) atom = Inr b"
  shows "\<exists>b'. Store_IsFlipped (store s') atom = Inr b' \<and> (b \<longrightarrow> b')"
proof (cases "atom = kFailAtom")
  case True
  with assms(2) show ?thesis by (auto simp: Store_IsFlipped_def)
next
  case False
  show ?thesis
  proof (cases b)
    case True
    with assms(2) have "Store_IsFlipped (store s) atom = Inr True" by simp
    from evolves_IsFlipped [OF assms(1) this] show ?thesis by blast
  next
    case b: False
    with assms(2) have "Store_IsFlipped (store s) atom = Inr False" by simp
    then obtain r a where
      h: "FindAtom (store s) atom = Inr r" "atom_at (store s) r = Some a"
      unfolding IsFlipped_False_iff [OF False] by blast
    from evolves_atom_at [OF assms(1) h(2)] obtain a' where
      a': "atom_at (store s') r = Some a'" by blast
    from h(1) evolves_FindAtom [OF assms(1), of atom]
    have "FindAtom (store s') atom = Inr r" by simp
    with a' False have "Store_IsFlipped (store s') atom = Inr (flipped a')"
      by (simp add: Store_IsFlipped_def FindAtom_deref_def Atom_IsFlipped_def)
    with b show ?thesis by simp
  qed
qed

text \<open>
  A member that the closure loop finds unflipped at its position: when the loop has
  returned, the negation of the member is flipped and the member is not.
\<close>

lemma UnflipAllPending_forces:
  assumes cons: "consistent (store s)"
    and c: "slc_at s this = Some c"
    and i: "i < length (slc_vars c)"
    and unfl: "Store_IsFlipped (store s) (slc_vars c ! i) = Inr False"
    and ret: "run n s (UnflipAllPending_call this i) = Some (Inr s')"
  shows "Store_IsFlipped (store s') (- (slc_vars c ! i)) = Inr True
         \<and> Store_IsFlipped (store s') (slc_vars c ! i) = Inr False"
proof -
  let ?v = "slc_vars c ! i"
  from ret obtain m where n: "n = Suc m" by (cases n) auto
  from ret c i unfl have
    "and_then (run m s (Store_Flip_call (- ?v)))
       (\<lambda>s'. run m s' (UnflipAllPending_call this (i + 1))) = Some (Inr s')"
    unfolding n by simp
  from and_then_Inr [OF this] obtain s1 where
    s1: "run m s (Store_Flip_call (- ?v)) = Some (Inr s1)"
        "run m s1 (UnflipAllPending_call this (i + 1)) = Some (Inr s')"
    by blast
  from s1(1) have ev1: "evolves s s1" by (rule run_evolves_Inr [rotated]) simp
  from s1(2) have ev2: "evolves s1 s'" by (rule run_evolves_Inr [rotated]) simp
  have "consistent (store (final_state (Inr s1 :: outcome)))"
    by (rule run_consistent [OF _ s1(1) cons]) simp
  then have cons1: "consistent (store s1)" by simp
  have "consistent (store (final_state (Inr s' :: outcome)))"
    by (rule run_consistent [OF _ s1(2) cons1]) simp
  then have cons': "consistent (store s')" by simp
  from Store_Flip_sets_flag [OF s1(1)] evolves_IsFlipped [OF ev2]
  have neg: "Store_IsFlipped (store s') (- ?v) = Inr True" by blast
  from evolves_IsFlipped_Inr [OF evolves_trans [OF ev1 ev2] unfl] obtain b' where
    b': "Store_IsFlipped (store s') ?v = Inr b'" by blast
  from consistent_IsFlipped [OF cons', of ?v] neg b' have "\<not> b'" by auto
  with neg b' show ?thesis by simp
qed

text \<open>
  The closure as a whole, from a state in which no slot has both atoms flipped: every
  member ends with exactly one of its two literals flipped, and a literal flipped
  before stays flipped.
\<close>

lemma UnflipAllPending_decides:
  assumes cons: "consistent (store s)"
    and c: "slc_at s this = Some c"
    and ret: "run n s (UnflipAllPending_call this 0) = Some (Inr s')"
    and v: "v \<in> set (slc_vars c)"
  shows "(Store_IsFlipped (store s') v = Inr True \<or> Store_IsFlipped (store s') (- v) = Inr True)
         \<and> \<not> (Store_IsFlipped (store s') v = Inr True \<and> Store_IsFlipped (store s') (- v) = Inr True)
         \<and> (Store_IsFlipped (store s) v = Inr True \<longrightarrow> Store_IsFlipped (store s') v = Inr True)"
proof -
  from v obtain j where j: "j < length (slc_vars c)" "slc_vars c ! j = v"
    by (auto simp: in_set_conv_nth)
  from UnflipAllPending_closes [OF ret c _ j(1)] j(2)
  have one: "Store_IsFlipped (store s') v = Inr True \<or> Store_IsFlipped (store s') (- v) = Inr True"
    by simp
  have "consistent (store (final_state (Inr s' :: outcome)))"
    by (rule run_consistent [OF _ ret cons]) simp
  then have "consistent (store s')" by simp
  from consistent_IsFlipped [OF this, of v]
  have two: "\<not> (Store_IsFlipped (store s') v = Inr True \<and> Store_IsFlipped (store s') (- v) = Inr True)" .
  from ret have "evolves s s'" by (rule run_evolves_Inr [rotated]) simp
  from evolves_IsFlipped [OF this]
  have three: "Store_IsFlipped (store s) v = Inr True \<longrightarrow> Store_IsFlipped (store s') v = Inr True"
    by blast
  from one two three show ?thesis by blast
qed

text \<open>
  A failure signalled while the closure loop runs is the failure of one of its forced
  flips: the loop itself has no \<open>Fail()\<close>.
\<close>

lemma UnflipAllPending_failure_origin:
  "run n s (UnflipAllPending_call this i) = Some (Inl (SolverFail, st)) \<Longrightarrow>
   slc_at s this = Some c \<Longrightarrow>
     \<exists>j m sj. i \<le> j \<and> j < length (slc_vars c)
        \<and> Store_IsFlipped (store sj) (slc_vars c ! j) = Inr False
        \<and> run m sj (Store_Flip_call (- (slc_vars c ! j))) = Some (Inl (SolverFail, st))"
proof (induction n arbitrary: s i c)
  case 0
  then show ?case by simp
next
  case (Suc n)
  from Suc.prems have i: "i < length (slc_vars c)" by (simp split: if_splits)
  show ?case
  proof (cases "Store_IsFlipped (store s) (slc_vars c ! i)")
    case (Inl e)
    with Suc.prems i have "e = SolverFail" by simp
    with Inl IsFlipped_not_SolverFail show ?thesis by blast
  next
    case (Inr b)
    show ?thesis
    proof (cases b)
      case True
      with Suc.prems i Inr
      have "run n s (UnflipAllPending_call this (i + 1)) = Some (Inl (SolverFail, st))" by simp
      from Suc.IH [OF this Suc.prems(2)] obtain j m sj where
        "i + 1 \<le> j \<and> j < length (slc_vars c)
          \<and> Store_IsFlipped (store sj) (slc_vars c ! j) = Inr False
          \<and> run m sj (Store_Flip_call (- (slc_vars c ! j))) = Some (Inl (SolverFail, st))"
        by blast
      then have "i \<le> j \<and> j < length (slc_vars c)
          \<and> Store_IsFlipped (store sj) (slc_vars c ! j) = Inr False
          \<and> run m sj (Store_Flip_call (- (slc_vars c ! j))) = Some (Inl (SolverFail, st))"
        by simp
      then show ?thesis by blast
    next
      case False
      with Suc.prems i Inr
      have "and_then (run n s (Store_Flip_call (- (slc_vars c ! i))))
              (\<lambda>s'. run n s' (UnflipAllPending_call this (i + 1))) = Some (Inl (SolverFail, st))"
        by simp
      from and_then_Inl [OF this]
      consider (here) "run n s (Store_Flip_call (- (slc_vars c ! i))) = Some (Inl (SolverFail, st))"
        | (later) s1 where "run n s (Store_Flip_call (- (slc_vars c ! i))) = Some (Inr s1)"
            "run n s1 (UnflipAllPending_call this (i + 1)) = Some (Inl (SolverFail, st))"
        by blast
      then show ?thesis
      proof cases
        case here
        with i Inr False have "i \<le> i \<and> i < length (slc_vars c)
            \<and> Store_IsFlipped (store s) (slc_vars c ! i) = Inr False
            \<and> run n s (Store_Flip_call (- (slc_vars c ! i))) = Some (Inl (SolverFail, st))"
          by simp
        then show ?thesis by blast
      next
        case later
        from later(1) have ev: "evolves s s1" by (rule run_evolves_Inr [rotated]) simp
        from evolves_slc_at [OF ev Suc.prems(2)] obtain c1 where
          c1: "slc_at s1 this = Some c1" "slc_vars c1 = slc_vars c" by blast
        from Suc.IH [OF later(2) c1(1)] c1(2) obtain j m sj where
          "i + 1 \<le> j \<and> j < length (slc_vars c)
            \<and> Store_IsFlipped (store sj) (slc_vars c ! j) = Inr False
            \<and> run m sj (Store_Flip_call (- (slc_vars c ! j))) = Some (Inl (SolverFail, st))"
          by auto
        then have "i \<le> j \<and> j < length (slc_vars c)
            \<and> Store_IsFlipped (store sj) (slc_vars c ! j) = Inr False
            \<and> run m sj (Store_Flip_call (- (slc_vars c ! j))) = Some (Inl (SolverFail, st))"
          by simp
        then show ?thesis by blast
      qed
    qed
  qed
qed

subsection \<open>Resolving a variable\<close>

text \<open>
  C3. The claim: the first call to resolve a variable allocates a slot holding atoms for
  both polarities, so that \<open>FindAtom\<close> on the literal returned, and on its negation,
  addresses an atom inside the store's allocated range. The source resizes the two
  vectors to \<open>raw_index\<close>, not \<open>raw_index + 1\<close>, and creates no \<open>Atom\<close>: on a new store
  the first variable gets literal 1 while both vectors stay empty, and \<open>FindAtom\<close> on
  that literal and on its negation reads outside the vectors.
\<close>

theorem TrueIndex_first_use_not_addressable:
  "TrueIndex Store_new var = (1, Store_new\<lparr>indices := [var]\<rparr>)
   \<and> true_atoms (snd (TrueIndex Store_new var)) = []
   \<and> false_atoms (snd (TrueIndex Store_new var)) = []
   \<and> FindAtom (snd (TrueIndex Store_new var)) (fst (TrueIndex Store_new var)) = Inl BadAccess
   \<and> FindAtom (snd (TrueIndex Store_new var)) (- fst (TrueIndex Store_new var)) = Inl BadAccess"
  by (simp add: TrueIndex_def VectorMap_Add_def Store_new_def resize_def FindAtom_def kFailAtom_def)

subsection \<open>The posting helpers\<close>

text \<open>
  C9. If the classifier reports either argument as not a boolean literal, each of
  \<open>AddBoolEq\<close>, \<open>AddBoolLe\<close> and \<open>AddBoolNot\<close> returns false and leaves the store as it
  was: no slot, no flip action, no listener.
\<close>

theorem AddBool_not_applicable:
  "IsBooleanVar left = None \<or> IsBooleanVar right = None \<Longrightarrow>
     AddBoolEq IsBooleanVar st left right = Inr (False, st)
     \<and> AddBoolLe IsBooleanVar st left right = Inr (False, st)
     \<and> AddBoolNot IsBooleanVar st left right = Inr (False, st)"
  by (auto simp: AddBoolEq_def AddBoolLe_def AddBoolNot_def split: option.splits)

theorem AddBool_not_applicable_witness:
  "AddBoolEq (\<lambda>e. if e = 9 then None else Some (e, False)) (Store_with_atoms [7, 8]) 7 9
     = Inr (False, Store_with_atoms [7, 8])
   \<and> AddBoolLe (\<lambda>e. if e = 9 then None else Some (e, False)) (Store_with_atoms [7, 8]) 7 9
     = Inr (False, Store_with_atoms [7, 8])
   \<and> AddBoolNot (\<lambda>e. if e = 9 then None else Some (e, False)) (Store_with_atoms [7, 8]) 7 9
     = Inr (False, Store_with_atoms [7, 8])"
  using AddBool_not_applicable [of "\<lambda>e. if e = 9 then None else Some (e, False)" 7 9
      "Store_with_atoms [7, 8]"]
  by simp

text \<open>
  C1. The claim: after \<open>AddBoolEq\<close> on A and B, flipping either literal flips the other,
  with no failure and no assertion violation. \<open>AddBoolEq\<close> adds the edges L to R and
  R to L, and \<open>Store::Flip\<close> does not test whether its target is flipped already: the
  flip of L flips R, whose action flips L again, and the \<open>CHECK\<close> of \<open>Atom::Flip\<close> fails.
  The same happens from R, and from either negation.
\<close>

theorem AddBoolEq_flip_check_fails:
  "(case AddBoolEq plain_literal (Store_with_atoms [7, 8]) 7 8 of
      Inl e \<Rightarrow> False
    | Inr (posted, st) \<Rightarrow>
        posted
        \<and> map_option failure (Store_Flip 20 \<lparr>store = st, slc_heap = [], sta_heap = []\<rparr> 1)
            = Some (Some CheckFailed)
        \<and> map_option failure (Store_Flip 20 \<lparr>store = st, slc_heap = [], sta_heap = []\<rparr> 2)
            = Some (Some CheckFailed)
        \<and> map_option failure (Store_Flip 20 \<lparr>store = st, slc_heap = [], sta_heap = []\<rparr> (- 1))
            = Some (Some CheckFailed)
        \<and> map_option failure (Store_Flip 20 \<lparr>store = st, slc_heap = [], sta_heap = []\<rparr> (- 2))
            = Some (Some CheckFailed))"
  by code_simp

subsection \<open>The fail sentinel\<close>

text \<open>
  C10. In every state \<open>Store::IsFlipped\<close> of the fail sentinel is false, whatever the
  store holds, while \<open>FindAtom\<close> of the sentinel fails its \<open>CHECK\<close>: the answer is given
  without looking for an atom. So a closure loop that meets the sentinel among its members
  takes it for not flipped, and goes on to \<open>Store::Flip\<close> of its negation, the sentinel
  again, which signals failure.
\<close>

theorem IsFlipped_fail_sentinel:
  "Store_IsFlipped st kFailAtom = Inr False
   \<and> FindAtom st kFailAtom = Inl CheckFailed
   \<and> (slc_at s this = Some c \<longrightarrow> i < length (slc_vars c) \<longrightarrow> slc_vars c ! i = kFailAtom \<longrightarrow>
        run (Suc (Suc n)) s (UnflipAllPending_call this i) = Some (Inl (SolverFail, s)))"
  by (simp add: Store_IsFlipped_def FindAtom_def kFailAtom_def and_then_def)

theorem IsFlipped_fail_sentinel_witness:
  "Store_IsFlipped Store_new kFailAtom = Inr False
   \<and> FindAtom Store_new kFailAtom = Inl CheckFailed
   \<and> slc_at \<lparr>store = Store_new, slc_heap = [SumLessConstant_new [0] 1], sta_heap = []\<rparr> 0
       = Some (SumLessConstant_new [0] 1)
   \<and> (0::nat) < length (slc_vars (SumLessConstant_new [0] 1))
   \<and> slc_vars (SumLessConstant_new [0] 1) ! 0 = kFailAtom
   \<and> run (Suc (Suc 0)) \<lparr>store = Store_new, slc_heap = [SumLessConstant_new [0] 1], sta_heap = []\<rparr>
         (UnflipAllPending_call 0 0)
       = Some (Inl (SolverFail,
            \<lparr>store = Store_new, slc_heap = [SumLessConstant_new [0] 1], sta_heap = []\<rparr>))"
proof -
  let ?s = "\<lparr>store = Store_new, slc_heap = [SumLessConstant_new [0] 1], sta_heap = []\<rparr>"
  have a: "slc_at ?s 0 = Some (SumLessConstant_new [0] 1)"
    by (simp add: slc_at_def)
  have b: "(0::nat) < length (slc_vars (SumLessConstant_new [0] 1))"
    by (simp add: SumLessConstant_new_def)
  have c: "slc_vars (SumLessConstant_new [0] 1) ! 0 = kFailAtom"
    by (simp add: SumLessConstant_new_def kFailAtom_def)
  from IsFlipped_fail_sentinel [of Store_new ?s 0 "SumLessConstant_new [0] 1" 0 0] a b c
  show ?thesis by blast
qed

subsection \<open>The trigger listeners of an atom\<close>

text \<open>
  C6. The claim: \<open>Atom::Flip\<close> invokes \<open>Flip\<close> on every trigger constraint listening when
  the third loop begins, and no listener that is still registered is skipped because
  another one removed itself by a swap. In the source the loop goes on to position
  \<open>i + 1\<close> after a constraint at position \<open>i\<close> has removed itself, and \<open>Remove\<close> has
  moved the last listener into position \<open>i\<close>. Two triggers with threshold 1 listen on
  literal 1, with actions 2 and 3: the flip of literal 1 fires the first, which leaves;
  the second is never invoked (its counter stays 0, literal 3 stays unflipped) although
  it is still listening.
\<close>

theorem Atom_Flip_skips_listener:
  "(case SumTriggerAction_Post
           \<lparr>store = Store_with_atoms [7, 8, 9], slc_heap = [],
            sta_heap = [SumTriggerAction_new [1] 1 [2], SumTriggerAction_new [1] 1 [3]]\<rparr> 0 of
      Inl e \<Rightarrow> False
    | Inr s1 \<Rightarrow>
        (case SumTriggerAction_Post s1 1 of
           Inl e \<Rightarrow> False
         | Inr s2 \<Rightarrow>
             map_option listening (atom_at (store s2) (TrueAtom 0)) = Some [0, 1]
             \<and> (case Store_Flip 20 s2 1 of
                  Some (Inr s3) \<Rightarrow>
                    map sta_sum (sta_heap s3) = [1, 0]
                    \<and> map_option listening (atom_at (store s3) (TrueAtom 0)) = Some [1]
                    \<and> Store_IsFlipped (store s3) 2 = Inr True
                    \<and> Store_IsFlipped (store s3) 3 = Inr False
                | _ \<Rightarrow> False)))"
  by code_simp

subsection \<open>The closure of SumLessConstant\<close>

text \<open>
  C7. The claim: whenever \<open>UnflipAllPending\<close> runs to completion without a signalled
  failure, exactly \<open>k\<close> members are flipped. The source counts the members it closes and
  then does nothing with the count (\<open>// Check count.\<close>). At most one of the literals
  1, 2, 3 may hold, and literal 1 forces literal 2 (\<open>AddBoolLe\<close>). The flip of literal 1
  sets its flag and runs its actions: literal 2 flips and notifies the constraint, whose
  counter reaches 1, so the closure runs; it finds 1 and 2 flipped, flips the negation of
  3, and returns. The action loop of literal 1 ends normally with two members flipped
  and a bound of 1. Failure is signalled only afterwards, when literal 1 notifies the
  constraint in its turn and the counter reaches 2.
\<close>

theorem UnflipAllPending_count_not_checked:
  "(case SumLessConstant_Post
           \<lparr>store = Store_with_atoms [7, 8, 9],
            slc_heap = [SumLessConstant_new [1, 2, 3] 1], sta_heap = []\<rparr> 0 of
      Inl e \<Rightarrow> False
    | Inr s1 \<Rightarrow>
        (case AddBoolLe plain_literal (store s1) 7 8 of
           Inl e \<Rightarrow> False
         | Inr (posted, st) \<Rightarrow>
             posted
             \<and> (case atom_at st (TrueAtom 0) of
                  None \<Rightarrow> False
                | Some a \<Rightarrow>
                    (case run 20 (s1\<lparr>store := put_atom st (TrueAtom 0) (a\<lparr>flipped := True\<rparr>)\<rparr>)
                            (Atom_Flip_actions_call (TrueAtom 0) 0) of
                       Some (Inr s3) \<Rightarrow>
                         map slc_constant (slc_heap s3) = [1]
                         \<and> map slc_sum (slc_heap s3) = [1]
                         \<and> Store_IsFlipped (store s3) (- 3) = Inr True
                         \<and> flipped_members s3 0 = 2
                     | _ \<Rightarrow> False))
             \<and> (case Store_Flip 20 (s1\<lparr>store := st\<rparr>) 1 of
                  Some (Inl (e, s4)) \<Rightarrow>
                    e = SolverFail
                    \<and> map slc_sum (slc_heap s4) = [2]
                    \<and> Store_IsFlipped (store s4) (- 3) = Inr True
                    \<and> flipped_members s4 0 = 2
                | _ \<Rightarrow> False)))"
  by code_simp

subsection \<open>A literal and its negation\<close>

text \<open>
  C2. \<open>Store::Flip\<close> of the fail sentinel, or of a literal whose opposite is flipped,
  signals failure and leaves the state as it is; otherwise it hands over to the literal's
  atom. Hence, from a state in which no slot has both atoms flipped, every call of the
  cascade leaves such a state, whether it returns or fails: no literal and its negation
  are both flipped. And once a flip of a literal has returned, a flip of its negation
  signals failure, also after any further call of the cascade. With enough fuel
  \<open>Store::Flip\<close> always comes to an outcome: the cascade terminates. The flips that
  \<open>VariableBound\<close> starts for the host keep the invariant as well.
\<close>

theorem Store_Flip_never_both:
  "Store_Flip (Suc n) s kFailAtom = Some (Inl (SolverFail, s))
   \<and> (Store_IsFlipped (store s) (- atom) = Inr True \<longrightarrow>
        Store_Flip (Suc n) s atom = Some (Inl (SolverFail, s)))
   \<and> (atom \<noteq> kFailAtom \<and> Store_IsFlipped (store s) (- atom) = Inr False
        \<and> FindAtom (store s) atom = Inr r \<longrightarrow>
        Store_Flip (Suc n) s atom = Atom_Flip n s r)
   \<and> (consistent (store s) \<and> entered_from s c \<and> run m s c = Some out \<longrightarrow>
        consistent (store (final_state out))
        \<and> \<not> (Store_IsFlipped (store (final_state out)) lit = Inr True
            \<and> Store_IsFlipped (store (final_state out)) (- lit) = Inr True))
   \<and> (Store_Flip m s atom = Some (Inr s1) \<and> entered_from s1 c' \<and> run k s1 c' = Some out' \<longrightarrow>
        Store_Flip (Suc n) (final_state out') (- atom)
          = Some (Inl (SolverFail, final_state out')))
   \<and> (\<exists>fuel result. Store_Flip fuel s atom = Some result)
   \<and> (consistent (store s) \<and> VariableBound var_Min m s index = Some out2 \<longrightarrow>
        consistent (store (final_state out2)))"
proof (intro conjI impI)
  show "Store_Flip (Suc n) s kFailAtom = Some (Inl (SolverFail, s))"
    by (simp add: Store_Flip_Suc)
next
  assume "Store_IsFlipped (store s) (- atom) = Inr True"
  then show "Store_Flip (Suc n) s atom = Some (Inl (SolverFail, s))"
    by (simp add: Store_Flip_Suc)
next
  assume "atom \<noteq> kFailAtom \<and> Store_IsFlipped (store s) (- atom) = Inr False
        \<and> FindAtom (store s) atom = Inr r"
  then show "Store_Flip (Suc n) s atom = Atom_Flip n s r"
    by (simp add: Store_Flip_Suc)
next
  assume h: "consistent (store s) \<and> entered_from s c \<and> run m s c = Some out"
  then show c: "consistent (store (final_state out))"
    using run_consistent by blast
  from h show "\<not> (Store_IsFlipped (store (final_state out)) lit = Inr True
            \<and> Store_IsFlipped (store (final_state out)) (- lit) = Inr True)"
    using run_consistent consistent_IsFlipped by blast
next
  assume h: "Store_Flip m s atom = Some (Inr s1) \<and> entered_from s1 c' \<and> run k s1 c' = Some out'"
  then have "Store_IsFlipped (store s1) atom = Inr True"
    using Store_Flip_sets_flag by (auto simp: Store_Flip_def)
  moreover from h have "evolves s1 (final_state out')" using run_evolves by blast
  ultimately have "Store_IsFlipped (store (final_state out')) atom = Inr True"
    using evolves_IsFlipped by blast
  then show "Store_Flip (Suc n) (final_state out') (- atom)
          = Some (Inl (SolverFail, final_state out'))"
    by (simp add: Store_Flip_Suc)
next
  show "\<exists>fuel result. Store_Flip fuel s atom = Some result"
    unfolding Store_Flip_def by (rule cascade_halts)
next
  assume "consistent (store s) \<and> VariableBound var_Min m s index = Some out2"
  then show "consistent (store (final_state out2))"
    using VariableBound_consistent by blast
qed

theorem Store_Flip_never_both_witness:
  "consistent (store two_atoms)
   \<and> Store_Flip 5 two_atoms 1 = Some (Inr (final_state (the (Store_Flip 5 two_atoms 1))))
   \<and> run 5 (final_state (the (Store_Flip 5 two_atoms 1))) (Store_Flip_call 2)
       = Some (the (run 5 (final_state (the (Store_Flip 5 two_atoms 1))) (Store_Flip_call 2)))
   \<and> Store_IsFlipped (store two_atoms) (- 1) = Inr False
   \<and> FindAtom (store two_atoms) 1 = Inr (TrueAtom 0)
   \<and> Store_Flip (Suc 4) two_atoms 1 = Atom_Flip 4 two_atoms (TrueAtom 0)
   \<and> consistent (store (final_state (the (Store_Flip 5 two_atoms 1))))
   \<and> Store_IsFlipped (store (final_state (the (Store_Flip 5 two_atoms 1)))) 1 = Inr True
   \<and> Store_Flip (Suc 4)
        (final_state (the (run 5 (final_state (the (Store_Flip 5 two_atoms 1))) (Store_Flip_call 2))))
        (- 1)
       = Some (Inl (SolverFail,
           final_state (the (run 5 (final_state (the (Store_Flip 5 two_atoms 1))) (Store_Flip_call 2)))))"
proof -
  let ?s1 = "final_state (the (Store_Flip 5 two_atoms 1))"
  let ?out = "the (run 5 ?s1 (Store_Flip_call 2))"
  have a: "consistent (store two_atoms)" by code_simp
  have b: "Store_Flip 5 two_atoms 1 = Some (Inr ?s1)" by code_simp
  have c: "run 5 ?s1 (Store_Flip_call 2) = Some ?out" by code_simp
  have d: "Store_IsFlipped (store two_atoms) (- 1) = Inr False" by code_simp
  have e: "FindAtom (store two_atoms) 1 = Inr (TrueAtom 0)" by code_simp
  have f: "Store_IsFlipped (store ?s1) 1 = Inr True" by code_simp
  have g: "entered_from two_atoms (Store_Flip_call 1)" "entered_from ?s1 (Store_Flip_call 2)"
    "(1::int) \<noteq> kFailAtom"
    by (simp_all add: kFailAtom_def)
  have b': "run 5 two_atoms (Store_Flip_call 1) = Some (Inr ?s1)"
    using b by (simp add: Store_Flip_def)
  from Store_Flip_never_both [of 4 two_atoms 1 "TrueAtom 0" "Store_Flip_call 1" 5 "Inr ?s1" 1
      ?s1 "Store_Flip_call 2" 5 ?out, unfolded final_state_simps] a b b' c d e f g
  show ?thesis by blast
qed

subsection \<open>The thresholds of SumLessConstant\<close>

text \<open>
  C4. The claim: every call of \<open>SumLessConstant::Flip\<close> adds exactly one to the counter,
  signals failure if and only if the new value is greater than the bound, and runs the
  closure if and only if the new value equals the bound. What holds is this.

  The call adds one to the 32-bit counter and touches nothing else before it compares;
  below \<open>INT_MAX\<close> that is one more as an integer. If the new value is greater than the
  bound, the call signals failure at once, with nothing else changed. If it is less, the
  call returns, with nothing else changed. If it equals the bound, the call is the
  closure and nothing else, so it ends as the closure ends. Hence the call ends in
  failure exactly when the new value is greater than the bound, or equals the bound and
  the closure ends in failure.

  The closure visits the members in list order. A member found flipped is passed over.
  For a member found unflipped the loop calls \<open>Store::Flip\<close> on its negation and goes on
  only when that call has returned. From a state in which no slot has both atoms
  flipped, a member found unflipped ends with its negation flipped and itself unflipped;
  every member ends with exactly one of its two literals flipped; a member flipped
  before stays so. A failure that ends the closure is the failure of one of these
  forced flips: the loop has no \<open>Fail()\<close> of its own. (A forced flip whose target is
  flipped already aborts on the \<open>CHECK\<close> of \<open>Atom::Flip\<close>, as under C1; what is said
  of a closure that returns or fails is not about that case.)

  The call always comes to an outcome.
\<close>

theorem SumLessConstant_Flip_thresholds:
  "(slc_at s this = Some c \<and> s1 = put_slc s this (c\<lparr>slc_sum := slc_sum c + 1\<rparr>) \<longrightarrow>
      slc_at s1 this = Some (c\<lparr>slc_sum := slc_sum c + 1\<rparr>)
      \<and> store s1 = store s
      \<and> sta_heap s1 = sta_heap s
      \<and> (\<forall>q. q \<noteq> this \<longrightarrow> slc_at s1 q = slc_at s q)
      \<and> (sint (slc_sum c) < 2147483647 \<longrightarrow> sint (slc_sum c + 1) = sint (slc_sum c) + 1)
      \<and> (sint (slc_sum c + 1) > sint (slc_constant c) \<longrightarrow>
           SumLessConstant_Flip (Suc n) s this index = Some (Inl (SolverFail, s1)))
      \<and> (slc_sum c + 1 = slc_constant c \<longrightarrow>
           SumLessConstant_Flip (Suc n) s this index = UnflipAllPending n s1 this)
      \<and> (sint (slc_sum c + 1) < sint (slc_constant c) \<longrightarrow>
           SumLessConstant_Flip (Suc n) s this index = Some (Inr s1))
      \<and> ((\<exists>st. SumLessConstant_Flip (Suc n) s this index = Some (Inl (SolverFail, st))) \<longleftrightarrow>
           sint (slc_sum c + 1) > sint (slc_constant c)
           \<or> (slc_sum c + 1 = slc_constant c
               \<and> (\<exists>st. UnflipAllPending n s1 this = Some (Inl (SolverFail, st))))))
   \<and> (slc_at s0 this = Some c0 \<and> \<not> i < length (slc_vars c0) \<longrightarrow>
        run (Suc n) s0 (UnflipAllPending_call this i) = Some (Inr s0))
   \<and> (slc_at s0 this = Some c0 \<and> i < length (slc_vars c0)
        \<and> Store_IsFlipped (store s0) (slc_vars c0 ! i) = Inr True \<longrightarrow>
        run (Suc n) s0 (UnflipAllPending_call this i)
          = run n s0 (UnflipAllPending_call this (i + 1)))
   \<and> (slc_at s0 this = Some c0 \<and> i < length (slc_vars c0)
        \<and> Store_IsFlipped (store s0) (slc_vars c0 ! i) = Inr False \<longrightarrow>
        run (Suc n) s0 (UnflipAllPending_call this i)
          = and_then (Store_Flip n s0 (- (slc_vars c0 ! i)))
              (\<lambda>s'. run n s' (UnflipAllPending_call this (i + 1))))
   \<and> (consistent (store s0) \<and> slc_at s0 this = Some c0 \<and> i < length (slc_vars c0)
        \<and> Store_IsFlipped (store s0) (slc_vars c0 ! i) = Inr False
        \<and> run n s0 (UnflipAllPending_call this i) = Some (Inr s') \<longrightarrow>
        Store_IsFlipped (store s') (- (slc_vars c0 ! i)) = Inr True
        \<and> Store_IsFlipped (store s') (slc_vars c0 ! i) = Inr False)
   \<and> (consistent (store s0) \<and> slc_at s0 this = Some c0
        \<and> UnflipAllPending n s0 this = Some (Inr s') \<and> v \<in> set (slc_vars c0) \<longrightarrow>
        (Store_IsFlipped (store s') v = Inr True \<or> Store_IsFlipped (store s') (- v) = Inr True)
        \<and> \<not> (Store_IsFlipped (store s') v = Inr True
              \<and> Store_IsFlipped (store s') (- v) = Inr True)
        \<and> (Store_IsFlipped (store s0) v = Inr True \<longrightarrow> Store_IsFlipped (store s') v = Inr True))
   \<and> (slc_at s0 this = Some c0
        \<and> run n s0 (UnflipAllPending_call this i) = Some (Inl (SolverFail, st)) \<longrightarrow>
        (\<exists>j m sj. i \<le> j \<and> j < length (slc_vars c0)
           \<and> Store_IsFlipped (store sj) (slc_vars c0 ! j) = Inr False
           \<and> Store_Flip m sj (- (slc_vars c0 ! j)) = Some (Inl (SolverFail, st))))
   \<and> (\<exists>fuel result. SumLessConstant_Flip fuel s this index = Some result)"
proof -
  have first: "slc_at s1 this = Some (c\<lparr>slc_sum := slc_sum c + 1\<rparr>)
      \<and> store s1 = store s
      \<and> sta_heap s1 = sta_heap s
      \<and> (\<forall>q. q \<noteq> this \<longrightarrow> slc_at s1 q = slc_at s q)
      \<and> (sint (slc_sum c) < 2147483647 \<longrightarrow> sint (slc_sum c + 1) = sint (slc_sum c) + 1)
      \<and> (sint (slc_sum c + 1) > sint (slc_constant c) \<longrightarrow>
           SumLessConstant_Flip (Suc n) s this index = Some (Inl (SolverFail, s1)))
      \<and> (slc_sum c + 1 = slc_constant c \<longrightarrow>
           SumLessConstant_Flip (Suc n) s this index = UnflipAllPending n s1 this)
      \<and> (sint (slc_sum c + 1) < sint (slc_constant c) \<longrightarrow>
           SumLessConstant_Flip (Suc n) s this index = Some (Inr s1))
      \<and> ((\<exists>st. SumLessConstant_Flip (Suc n) s this index = Some (Inl (SolverFail, st))) \<longleftrightarrow>
           sint (slc_sum c + 1) > sint (slc_constant c)
           \<or> (slc_sum c + 1 = slc_constant c
               \<and> (\<exists>st. UnflipAllPending n s1 this = Some (Inl (SolverFail, st)))))"
    if h: "slc_at s this = Some c \<and> s1 = put_slc s this (c\<lparr>slc_sum := slc_sum c + 1\<rparr>)"
  proof -
    from h have c: "slc_at s this = Some c"
      and s1: "s1 = put_slc s this (c\<lparr>slc_sum := slc_sum c + 1\<rparr>)" by simp_all
    have a1: "slc_at s1 this = Some (c\<lparr>slc_sum := slc_sum c + 1\<rparr>)"
      unfolding s1 by (simp add: slc_at_put_slc [OF c])
    have a2: "store s1 = store s" "sta_heap s1 = sta_heap s"
      unfolding s1 by (simp_all add: put_slc_def)
    have a3: "\<forall>q. q \<noteq> this \<longrightarrow> slc_at s1 q = slc_at s q"
      unfolding s1 by (simp add: put_slc_def slc_at_def)
    have a4: "sint (slc_sum c) < 2147483647 \<longrightarrow> sint (slc_sum c + 1) = sint (slc_sum c) + 1"
      by (simp add: sint_Incr)
    have over: "SumLessConstant_Flip (Suc n) s this index = Some (Inl (SolverFail, s1))"
      if "sint (slc_sum c + 1) > sint (slc_constant c)"
      using that c unfolding s1 by (simp add: SumLessConstant_Flip_Suc)
    have reached: "SumLessConstant_Flip (Suc n) s this index = UnflipAllPending n s1 this"
      if "slc_sum c + 1 = slc_constant c"
      using that c unfolding s1 by (simp add: SumLessConstant_Flip_Suc)
    have under: "SumLessConstant_Flip (Suc n) s this index = Some (Inr s1)"
      if "sint (slc_sum c + 1) < sint (slc_constant c)"
    proof -
      from that have "slc_sum c + 1 \<noteq> slc_constant c" by auto
      with that c show ?thesis unfolding s1 by (simp add: SumLessConstant_Flip_Suc)
    qed
    have fails: "(\<exists>st. SumLessConstant_Flip (Suc n) s this index = Some (Inl (SolverFail, st))) \<longleftrightarrow>
           sint (slc_sum c + 1) > sint (slc_constant c)
           \<or> (slc_sum c + 1 = slc_constant c
               \<and> (\<exists>st. UnflipAllPending n s1 this = Some (Inl (SolverFail, st))))"
    proof (cases "slc_sum c + 1" "slc_constant c" rule: sint_cases)
      case less
      with under show ?thesis by auto
    next
      case equal
      with reached show ?thesis by auto
    next
      case greater
      with over show ?thesis by auto
    qed
    from a1 a2 a3 a4 over reached under fails show ?thesis by blast
  qed
  have step_end: "run (Suc n) s0 (UnflipAllPending_call this i) = Some (Inr s0)"
    if "slc_at s0 this = Some c0 \<and> \<not> i < length (slc_vars c0)"
    using that by simp
  have step_skip: "run (Suc n) s0 (UnflipAllPending_call this i)
          = run n s0 (UnflipAllPending_call this (i + 1))"
    if "slc_at s0 this = Some c0 \<and> i < length (slc_vars c0)
        \<and> Store_IsFlipped (store s0) (slc_vars c0 ! i) = Inr True"
    using that by simp
  have step_force: "run (Suc n) s0 (UnflipAllPending_call this i)
          = and_then (Store_Flip n s0 (- (slc_vars c0 ! i)))
              (\<lambda>s'. run n s' (UnflipAllPending_call this (i + 1)))"
    if "slc_at s0 this = Some c0 \<and> i < length (slc_vars c0)
        \<and> Store_IsFlipped (store s0) (slc_vars c0 ! i) = Inr False"
    using that by (simp add: Store_Flip_def)
  have forced: "Store_IsFlipped (store s') (- (slc_vars c0 ! i)) = Inr True
        \<and> Store_IsFlipped (store s') (slc_vars c0 ! i) = Inr False"
    if "consistent (store s0) \<and> slc_at s0 this = Some c0 \<and> i < length (slc_vars c0)
        \<and> Store_IsFlipped (store s0) (slc_vars c0 ! i) = Inr False
        \<and> run n s0 (UnflipAllPending_call this i) = Some (Inr s')"
    using that UnflipAllPending_forces by blast
  have decided:
    "(Store_IsFlipped (store s') v = Inr True \<or> Store_IsFlipped (store s') (- v) = Inr True)
        \<and> \<not> (Store_IsFlipped (store s') v = Inr True
              \<and> Store_IsFlipped (store s') (- v) = Inr True)
        \<and> (Store_IsFlipped (store s0) v = Inr True \<longrightarrow> Store_IsFlipped (store s') v = Inr True)"
    if h: "consistent (store s0) \<and> slc_at s0 this = Some c0
        \<and> UnflipAllPending n s0 this = Some (Inr s') \<and> v \<in> set (slc_vars c0)"
  proof -
    from h have "run n s0 (UnflipAllPending_call this 0) = Some (Inr s')"
      by (simp add: UnflipAllPending_def)
    with h show ?thesis using UnflipAllPending_decides by blast
  qed
  have origin: "\<exists>j m sj. i \<le> j \<and> j < length (slc_vars c0)
           \<and> Store_IsFlipped (store sj) (slc_vars c0 ! j) = Inr False
           \<and> Store_Flip m sj (- (slc_vars c0 ! j)) = Some (Inl (SolverFail, st))"
    if "slc_at s0 this = Some c0
        \<and> run n s0 (UnflipAllPending_call this i) = Some (Inl (SolverFail, st))"
    using that UnflipAllPending_failure_origin [of n s0 this i st c0]
    unfolding Store_Flip_def by blast
  have halts: "\<exists>fuel result. SumLessConstant_Flip fuel s this index = Some result"
    unfolding SumLessConstant_Flip_def by (rule cascade_halts)
  show ?thesis
    apply (intro conjI)
    subgoal by (rule impI) (rule first)
    subgoal by (rule impI) (rule step_end)
    subgoal by (rule impI) (rule step_skip)
    subgoal by (rule impI) (rule step_force)
    subgoal by (rule impI) (rule forced)
    subgoal by (rule impI) (rule decided)
    subgoal by (rule impI) (rule origin)
    subgoal by (rule halts)
    done
qed

theorem SumLessConstant_Flip_thresholds_witness:
  "slc_at (flag_switched (final_state (the (Store_Flip 10 at_most_two 1))) (TrueAtom 1)) 0
     = Some (SumLessConstant_new [1, 2, 3] 2\<lparr>slc_sum := 1\<rparr>)
   \<and> SumLessConstant_Flip (Suc 10)
        (flag_switched (final_state (the (Store_Flip 10 at_most_two 1))) (TrueAtom 1)) 0 2
       = UnflipAllPending 10
           (put_slc (flag_switched (final_state (the (Store_Flip 10 at_most_two 1))) (TrueAtom 1)) 0
              (SumLessConstant_new [1, 2, 3] 2\<lparr>slc_sum := 2\<rparr>)) 0
   \<and> Store_IsFlipped
        (store (put_slc (flag_switched (final_state (the (Store_Flip 10 at_most_two 1))) (TrueAtom 1)) 0
           (SumLessConstant_new [1, 2, 3] 2\<lparr>slc_sum := 2\<rparr>))) 1 = Inr True
   \<and> run (Suc 10)
        (put_slc (flag_switched (final_state (the (Store_Flip 10 at_most_two 1))) (TrueAtom 1)) 0
           (SumLessConstant_new [1, 2, 3] 2\<lparr>slc_sum := 2\<rparr>)) (UnflipAllPending_call 0 0)
       = run 10
           (put_slc (flag_switched (final_state (the (Store_Flip 10 at_most_two 1))) (TrueAtom 1)) 0
              (SumLessConstant_new [1, 2, 3] 2\<lparr>slc_sum := 2\<rparr>)) (UnflipAllPending_call 0 (0 + 1))
   \<and> Store_IsFlipped
        (store (put_slc (flag_switched (final_state (the (Store_Flip 10 at_most_two 1))) (TrueAtom 1)) 0
           (SumLessConstant_new [1, 2, 3] 2\<lparr>slc_sum := 2\<rparr>))) 3 = Inr False
   \<and> run (Suc 10)
        (put_slc (flag_switched (final_state (the (Store_Flip 10 at_most_two 1))) (TrueAtom 1)) 0
           (SumLessConstant_new [1, 2, 3] 2\<lparr>slc_sum := 2\<rparr>)) (UnflipAllPending_call 0 2)
       = and_then
           (Store_Flip 10
              (put_slc (flag_switched (final_state (the (Store_Flip 10 at_most_two 1))) (TrueAtom 1)) 0
                 (SumLessConstant_new [1, 2, 3] 2\<lparr>slc_sum := 2\<rparr>)) (- 3))
           (\<lambda>s'. run 10 s' (UnflipAllPending_call 0 (2 + 1)))
   \<and> Store_IsFlipped
        (store (final_state (the (UnflipAllPending 10
           (put_slc (flag_switched (final_state (the (Store_Flip 10 at_most_two 1))) (TrueAtom 1)) 0
              (SumLessConstant_new [1, 2, 3] 2\<lparr>slc_sum := 2\<rparr>)) 0)))) (- 3) = Inr True
   \<and> Store_IsFlipped
        (store (final_state (the (UnflipAllPending 10
           (put_slc (flag_switched (final_state (the (Store_Flip 10 at_most_two 1))) (TrueAtom 1)) 0
              (SumLessConstant_new [1, 2, 3] 2\<lparr>slc_sum := 2\<rparr>)) 0)))) 3 = Inr False
   \<and> Store_IsFlipped
        (store (final_state (the (UnflipAllPending 10
           (put_slc (flag_switched (final_state (the (Store_Flip 10 at_most_two 1))) (TrueAtom 1)) 0
              (SumLessConstant_new [1, 2, 3] 2\<lparr>slc_sum := 2\<rparr>)) 0)))) 1 = Inr True
   \<and> SumLessConstant_Flip (Suc 10) (flag_switched at_most_two (TrueAtom 0)) 0 1
       = Some (Inr (put_slc (flag_switched at_most_two (TrueAtom 0)) 0
                      (SumLessConstant_new [1, 2, 3] 2\<lparr>slc_sum := 1\<rparr>)))
   \<and> SumLessConstant_Flip (Suc 10)
        (final_state (the (run 20 (flag_switched at_most_one_and_le (TrueAtom 0))
                             (Atom_Flip_actions_call (TrueAtom 0) 0)))) 0 1
       = Some (Inl (SolverFail,
           put_slc (final_state (the (run 20 (flag_switched at_most_one_and_le (TrueAtom 0))
                                        (Atom_Flip_actions_call (TrueAtom 0) 0)))) 0
             (SumLessConstant_new [1, 2, 3] 1\<lparr>slc_sum := 2\<rparr>)))
   \<and> (\<exists>j m sj. 0 \<le> j \<and> j < length [1, 2 :: int]
         \<and> Store_IsFlipped (store sj) ([1, 2] ! j) = Inr False
         \<and> Store_Flip m sj (- ([1, 2] ! j))
             = Some (Inl (SolverFail,
                 final_state (the (UnflipAllPending 10
                   (put_slc (flag_switched (final_state (the (Store_Flip 10 bound_and_trigger (- 3))))
                               (TrueAtom 0)) 0
                     (SumLessConstant_new [1, 2] 1\<lparr>slc_sum := 1\<rparr>)) 0)))))"
proof -
  let ?sA = "final_state (the (Store_Flip 10 at_most_two 1))"
  let ?sR = "flag_switched ?sA (TrueAtom 1)"
  let ?cA = "SumLessConstant_new [1, 2, 3] 2\<lparr>slc_sum := 1\<rparr>"
  let ?cR = "SumLessConstant_new [1, 2, 3] 2\<lparr>slc_sum := 2\<rparr>"
  let ?s1 = "put_slc ?sR 0 ?cR"
  let ?s' = "final_state (the (UnflipAllPending 10 ?s1 0))"
  let ?sU = "flag_switched at_most_two (TrueAtom 0)"
  let ?cU = "SumLessConstant_new [1, 2, 3] 2"
  let ?s1U = "put_slc ?sU 0 ?cA"
  let ?sO = "final_state (the (run 20 (flag_switched at_most_one_and_le (TrueAtom 0))
                             (Atom_Flip_actions_call (TrueAtom 0) 0)))"
  let ?cO = "SumLessConstant_new [1, 2, 3] 1\<lparr>slc_sum := 1\<rparr>"
  let ?cO2 = "SumLessConstant_new [1, 2, 3] 1\<lparr>slc_sum := 2\<rparr>"
  let ?s1O = "put_slc ?sO 0 ?cO2"
  let ?sF = "flag_switched (final_state (the (Store_Flip 10 bound_and_trigger (- 3)))) (TrueAtom 0)"
  let ?cF = "SumLessConstant_new [1, 2] 1\<lparr>slc_sum := 1\<rparr>"
  let ?s1F = "put_slc ?sF 0 ?cF"
  let ?stF = "final_state (the (UnflipAllPending 10 ?s1F 0))"
  have r1: "slc_at ?sR 0 = Some ?cA" by code_simp
  have r2: "?s1 = put_slc ?sR 0 (?cA\<lparr>slc_sum := slc_sum ?cA + 1\<rparr>)" by code_simp
  have r3: "slc_sum ?cA + 1 = slc_constant ?cA" by code_simp
  have r4: "slc_at ?s1 0 = Some ?cR" by code_simp
  have r5: "consistent (store ?s1)" by code_simp
  have m0: "(0::nat) < length (slc_vars ?cR)" "slc_vars ?cR ! 0 = 1" by code_simp+
  have m2: "(2::nat) < length (slc_vars ?cR)" "slc_vars ?cR ! 2 = 3" by code_simp+
  have f0: "Store_IsFlipped (store ?s1) 1 = Inr True" by code_simp
  have f2: "Store_IsFlipped (store ?s1) 3 = Inr False" by code_simp
  have l2: "run 10 ?s1 (UnflipAllPending_call 0 2) = Some (Inr ?s')" by code_simp
  have l0: "UnflipAllPending 10 ?s1 0 = Some (Inr ?s')" by code_simp
  have v1: "(1::int) \<in> set (slc_vars ?cR)" by code_simp
  note R0 = SumLessConstant_Flip_thresholds [where s = ?sR and this = 0 and c = ?cA and ?s1.0 = ?s1
      and n = 10 and index = 2 and ?s0.0 = ?s1 and ?c0.0 = ?cR and i = 0 and s' = ?s' and v = 1,
      unfolded m0(2)]
  note R2 = SumLessConstant_Flip_thresholds [where s = ?sR and this = 0 and c = ?cA and ?s1.0 = ?s1
      and n = 10 and index = 2 and ?s0.0 = ?s1 and ?c0.0 = ?cR and i = 2 and s' = ?s' and v = 1,
      unfolded m2(2)]
  from R0 r1 r2 r3 have reached: "SumLessConstant_Flip (Suc 10) ?sR 0 2 = UnflipAllPending 10 ?s1 0"
    by blast
  from R0 r4 m0(1) f0 have skip: "run (Suc 10) ?s1 (UnflipAllPending_call 0 0)
      = run 10 ?s1 (UnflipAllPending_call 0 (0 + 1))"
    by blast
  from R2 r4 m2(1) f2 have force: "run (Suc 10) ?s1 (UnflipAllPending_call 0 2)
      = and_then (Store_Flip 10 ?s1 (- 3)) (\<lambda>s'. run 10 s' (UnflipAllPending_call 0 (2 + 1)))"
    by blast
  from R2 r5 r4 m2(1) f2 l2 have forced: "Store_IsFlipped (store ?s') (- 3) = Inr True
      \<and> Store_IsFlipped (store ?s') 3 = Inr False"
    by blast
  from R0 r5 r4 l0 v1 f0 have kept: "Store_IsFlipped (store ?s') 1 = Inr True" by blast
  have u1: "slc_at ?sU 0 = Some ?cU" by code_simp
  have u2: "?s1U = put_slc ?sU 0 (?cU\<lparr>slc_sum := slc_sum ?cU + 1\<rparr>)" by code_simp
  have u3: "sint (slc_sum ?cU + 1) < sint (slc_constant ?cU)" by code_simp
  note U = SumLessConstant_Flip_thresholds [where s = ?sU and this = 0 and c = ?cU
      and ?s1.0 = ?s1U and n = 10 and index = 1]
  from U u1 u2 u3 have under: "SumLessConstant_Flip (Suc 10) ?sU 0 1 = Some (Inr ?s1U)" by blast
  have o1: "slc_at ?sO 0 = Some ?cO" by code_simp
  have o2: "?s1O = put_slc ?sO 0 (?cO\<lparr>slc_sum := slc_sum ?cO + 1\<rparr>)" by code_simp
  have o3: "sint (slc_sum ?cO + 1) > sint (slc_constant ?cO)" by code_simp
  note O = SumLessConstant_Flip_thresholds [where s = ?sO and this = 0 and c = ?cO
      and ?s1.0 = ?s1O and n = 10 and index = 1]
  from O o1 o2 o3 have over: "SumLessConstant_Flip (Suc 10) ?sO 0 1 = Some (Inl (SolverFail, ?s1O))"
    by blast
  have g1: "slc_at ?s1F 0 = Some ?cF" by code_simp
  have g2: "run 10 ?s1F (UnflipAllPending_call 0 0) = Some (Inl (SolverFail, ?stF))" by code_simp
  have g3: "slc_vars ?cF = [1, 2]" by code_simp
  note F = SumLessConstant_Flip_thresholds [where s = ?sF and this = 0
      and c = "SumLessConstant_new [1, 2] 1" and ?s1.0 = ?s1F and index = 1 and n = 10
      and ?s0.0 = ?s1F and ?c0.0 = ?cF and i = 0 and s' = ?stF and v = 1 and st = ?stF,
      unfolded g3]
  then have imp: "slc_at ?s1F 0 = Some ?cF
        \<and> run 10 ?s1F (UnflipAllPending_call 0 0) = Some (Inl (SolverFail, ?stF)) \<longrightarrow>
      (\<exists>j m sj. 0 \<le> j \<and> j < length [1, 2 :: int]
         \<and> Store_IsFlipped (store sj) ([1, 2] ! j) = Inr False
         \<and> Store_Flip m sj (- ([1, 2] ! j)) = Some (Inl (SolverFail, ?stF)))"
    by (elim conjE)
  from g1 g2 have "slc_at ?s1F 0 = Some ?cF
        \<and> run 10 ?s1F (UnflipAllPending_call 0 0) = Some (Inl (SolverFail, ?stF))"
    by (rule conjI)
  with imp have origin: "\<exists>j m sj. 0 \<le> j \<and> j < length [1, 2 :: int]
         \<and> Store_IsFlipped (store sj) ([1, 2] ! j) = Inr False
         \<and> Store_Flip m sj (- ([1, 2] ! j)) = Some (Inl (SolverFail, ?stF))"
    by (rule mp)
  show ?thesis
    by (intro conjI)
      (rule r1 reached f0 skip f2 force conjunct1 [OF forced] conjunct2 [OF forced] kept
         under over origin)+
qed

text \<open>
  The claim as written does not hold at the bound. At most one of the literals 1, 2 may
  hold, a trigger flips literal 3 once literal -2 holds, and literal -3 has been
  flipped. Literal 1 is being flipped: its flag is set and it notifies the constraint.
  The counter goes from 0 to 1, which equals the bound and is not greater; the closure
  passes over literal 1 and forces literal -2, the trigger fires, and \<open>Store::Flip\<close> of
  literal 3 signals failure because -3 is flipped. The call of \<open>SumLessConstant::Flip\<close>
  ends in failure with its counter at 1, and so does the flip of literal 1 as a whole.
\<close>

theorem SumLessConstant_Flip_fails_at_bound:
  "slc_at (flag_switched (final_state (the (Store_Flip 10 bound_and_trigger (- 3)))) (TrueAtom 0)) 0
     = Some (SumLessConstant_new [1, 2] 1)
   \<and> slc_sum (SumLessConstant_new [1, 2] 1) + 1 = slc_constant (SumLessConstant_new [1, 2] 1)
   \<and> sint (slc_sum (SumLessConstant_new [1, 2] 1) + 1)
       \<le> sint (slc_constant (SumLessConstant_new [1, 2] 1))
   \<and> Store_IsFlipped
        (store (flag_switched (final_state (the (Store_Flip 10 bound_and_trigger (- 3))))
                  (TrueAtom 0))) (- 3) = Inr True
   \<and> map_option failure
        (SumLessConstant_Flip 20
           (flag_switched (final_state (the (Store_Flip 10 bound_and_trigger (- 3)))) (TrueAtom 0))
           0 1)
       = Some (Some SolverFail)
   \<and> map_option (\<lambda>out. map slc_sum (slc_heap (final_state out)))
        (SumLessConstant_Flip 20
           (flag_switched (final_state (the (Store_Flip 10 bound_and_trigger (- 3)))) (TrueAtom 0))
           0 1)
       = Some [1]
   \<and> map_option failure
        (Store_Flip 20 (final_state (the (Store_Flip 10 bound_and_trigger (- 3)))) 1)
       = Some (Some SolverFail)
   \<and> map_option (\<lambda>out. map slc_sum (slc_heap (final_state out)))
        (Store_Flip 20 (final_state (the (Store_Flip 10 bound_and_trigger (- 3)))) 1)
       = Some [1]"
  by code_simp

subsection \<open>AddBoolLe\<close>

text \<open>
  C8. When \<open>AddBoolLe\<close> on A and B has succeeded, with literals L and R, the store has
  the edges from L to R and from the negation of R to the negation of L, and these two
  appended flip actions are all that changed. With such an edge in place a flip of its
  source that returns leaves its destination flipped: A true forces B true, B false
  forces A false. The converse is not forced: with only this relation posted, the flip of
  B's literal leaves both literals of A unflipped, and the flip of A's negation leaves
  both literals of B unflipped. Every flip comes to an outcome: it returns, signals
  failure or aborts.
\<close>

theorem AddBoolLe_forces_one_way:
  "(IsBooleanVar left = Some (left_var, left_negated)
      \<and> IsBooleanVar right = Some (right_var, right_negated)
      \<and> Index st left_var left_negated = (L, st1)
      \<and> Index st1 right_var right_negated = (R, st2)
      \<and> AddBoolLe IsBooleanVar st left right = Inr (True, st') \<longrightarrow>
        has_edge st' L R \<and> has_edge st' (- R) (- L)
        \<and> atom_at st' r =
            map_option (\<lambda>a. a\<lparr>atom_actions :=
                                atom_actions a @ (if FindAtom st2 L = Inr r then [R] else [])
                                  @ (if FindAtom st2 (- R) = Inr r then [- L] else [])\<rparr>)
              (atom_at st2 r)
        \<and> indices st' = indices st2
        \<and> length (true_atoms st') = length (true_atoms st2)
        \<and> length (false_atoms st') = length (false_atoms st2)
        \<and> sum_less_constant_constraints st' = sum_less_constant_constraints st2
        \<and> sum_trigger_actions_constraints st' = sum_trigger_actions_constraints st2)
   \<and> (has_edge (store s) x y \<and> Store_Flip n s x = Some (Inr s') \<longrightarrow>
        Store_IsFlipped (store s') y = Inr True)
   \<and> (case AddBoolLe plain_literal (store two_atoms) 7 8 of
        Inl e \<Rightarrow> False
      | Inr (posted, st) \<Rightarrow>
          posted
          \<and> (case Store_Flip 10 (two_atoms\<lparr>store := st\<rparr>) 2 of
               Some (Inr s') \<Rightarrow>
                 Store_IsFlipped (store s') 2 = Inr True
                 \<and> Store_IsFlipped (store s') 1 = Inr False
                 \<and> Store_IsFlipped (store s') (- 1) = Inr False
             | _ \<Rightarrow> False)
          \<and> (case Store_Flip 10 (two_atoms\<lparr>store := st\<rparr>) (- 1) of
               Some (Inr s') \<Rightarrow>
                 Store_IsFlipped (store s') (- 1) = Inr True
                 \<and> Store_IsFlipped (store s') (- 2) = Inr False
                 \<and> Store_IsFlipped (store s') 2 = Inr False
             | _ \<Rightarrow> False))
   \<and> (\<exists>fuel result. Store_Flip fuel s x = Some result)"
proof (intro conjI impI)
  assume h: "IsBooleanVar left = Some (left_var, left_negated)
      \<and> IsBooleanVar right = Some (right_var, right_negated)
      \<and> Index st left_var left_negated = (L, st1)
      \<and> Index st1 right_var right_negated = (R, st2)
      \<and> AddBoolLe IsBooleanVar st left right = Inr (True, st')"
  then have h': "IsBooleanVar left = Some (left_var, left_negated)"
    "IsBooleanVar right = Some (right_var, right_negated)"
    "Index st left_var left_negated = (L, st1)" "Index st1 right_var right_negated = (R, st2)"
    "AddBoolLe IsBooleanVar st left right = Inr (True, st')"
    by simp_all
  from AddBoolLe_has_edges [OF h'] show "has_edge st' L R" "has_edge st' (- R) (- L)" .
  from AddBoolLe_atom_at [OF h']
  show "atom_at st' r =
            map_option (\<lambda>a. a\<lparr>atom_actions :=
                                atom_actions a @ (if FindAtom st2 L = Inr r then [R] else [])
                                  @ (if FindAtom st2 (- R) = Inr r then [- L] else [])\<rparr>)
              (atom_at st2 r)"
    "indices st' = indices st2"
    "length (true_atoms st') = length (true_atoms st2)"
    "length (false_atoms st') = length (false_atoms st2)"
    "sum_less_constant_constraints st' = sum_less_constant_constraints st2"
    "sum_trigger_actions_constraints st' = sum_trigger_actions_constraints st2" .
next
  assume "has_edge (store s) x y \<and> Store_Flip n s x = Some (Inr s')"
  then show "Store_IsFlipped (store s') y = Inr True"
    using has_edge_forces by blast
next
  show "case AddBoolLe plain_literal (store two_atoms) 7 8 of
        Inl e \<Rightarrow> False
      | Inr (posted, st) \<Rightarrow>
          posted
          \<and> (case Store_Flip 10 (two_atoms\<lparr>store := st\<rparr>) 2 of
               Some (Inr s') \<Rightarrow>
                 Store_IsFlipped (store s') 2 = Inr True
                 \<and> Store_IsFlipped (store s') 1 = Inr False
                 \<and> Store_IsFlipped (store s') (- 1) = Inr False
             | _ \<Rightarrow> False)
          \<and> (case Store_Flip 10 (two_atoms\<lparr>store := st\<rparr>) (- 1) of
               Some (Inr s') \<Rightarrow>
                 Store_IsFlipped (store s') (- 1) = Inr True
                 \<and> Store_IsFlipped (store s') (- 2) = Inr False
                 \<and> Store_IsFlipped (store s') 2 = Inr False
             | _ \<Rightarrow> False)"
    by code_simp
next
  show "\<exists>fuel result. Store_Flip fuel s x = Some result"
    unfolding Store_Flip_def by (rule cascade_halts)
qed

theorem AddBoolLe_forces_one_way_witness:
  "plain_literal 7 = Some (7, False) \<and> plain_literal 8 = Some (8, False)
   \<and> Index (store two_atoms) 7 False = (1, store two_atoms)
   \<and> Index (store two_atoms) 8 False = (2, store two_atoms)
   \<and> AddBoolLe plain_literal (store two_atoms) 7 8
       = Inr (True, snd (projr (AddBoolLe plain_literal (store two_atoms) 7 8)))
   \<and> has_edge (snd (projr (AddBoolLe plain_literal (store two_atoms) 7 8))) 1 2
   \<and> has_edge (snd (projr (AddBoolLe plain_literal (store two_atoms) 7 8))) (- 2) (- 1)
   \<and> Store_Flip 10 (two_atoms\<lparr>store := snd (projr (AddBoolLe plain_literal (store two_atoms) 7 8))\<rparr>) 1
       = Some (Inr (final_state (the (Store_Flip 10
           (two_atoms\<lparr>store := snd (projr (AddBoolLe plain_literal (store two_atoms) 7 8))\<rparr>) 1))))
   \<and> Store_IsFlipped (store (final_state (the (Store_Flip 10
           (two_atoms\<lparr>store := snd (projr (AddBoolLe plain_literal (store two_atoms) 7 8))\<rparr>) 1)))) 2
       = Inr True
   \<and> Store_Flip 10 (two_atoms\<lparr>store := snd (projr (AddBoolLe plain_literal (store two_atoms) 7 8))\<rparr>) (- 2)
       = Some (Inr (final_state (the (Store_Flip 10
           (two_atoms\<lparr>store := snd (projr (AddBoolLe plain_literal (store two_atoms) 7 8))\<rparr>) (- 2)))))
   \<and> Store_IsFlipped (store (final_state (the (Store_Flip 10
           (two_atoms\<lparr>store := snd (projr (AddBoolLe plain_literal (store two_atoms) 7 8))\<rparr>) (- 2))))) (- 1)
       = Inr True"
proof -
  let ?st' = "snd (projr (AddBoolLe plain_literal (store two_atoms) 7 8))"
  let ?s = "two_atoms\<lparr>store := ?st'\<rparr>"
  let ?s1 = "final_state (the (Store_Flip 10 ?s 1))"
  let ?s2 = "final_state (the (Store_Flip 10 ?s (- 2)))"
  have a: "plain_literal 7 = Some (7, False)" "plain_literal 8 = Some (8, False)"
    by (simp_all add: plain_literal_def)
  have b: "Index (store two_atoms) 7 False = (1, store two_atoms)" by code_simp
  have c: "Index (store two_atoms) 8 False = (2, store two_atoms)" by code_simp
  have d: "AddBoolLe plain_literal (store two_atoms) 7 8 = Inr (True, ?st')" by code_simp
  have e: "Store_Flip 10 ?s 1 = Some (Inr ?s1)" by code_simp
  have f: "Store_Flip 10 ?s (- 2) = Some (Inr ?s2)" by code_simp
  have g: "store ?s = ?st'" by simp
  note T1 = AddBoolLe_forces_one_way [of plain_literal 7 7 False 8 8 False "store two_atoms" 1
      "store two_atoms" 2 "store two_atoms" ?st' "TrueAtom 0" ?s 1 2 10 ?s1, unfolded g]
  note T2 = AddBoolLe_forces_one_way [of plain_literal 7 7 False 8 8 False "store two_atoms" 1
      "store two_atoms" 2 "store two_atoms" ?st' "TrueAtom 0" ?s "- 2" "- 1" 10 ?s2, unfolded g]
  from T1 T2 a b c d e f show ?thesis by blast
qed

subsection \<open>The trigger fires once\<close>

text \<open>
  C5. When a flip raises the counter of a \<open>SumTriggerAction\<close> to its threshold or
  beyond, the constraint first stops listening and then flips its actions: it is
  \<open>StopListening\<close> followed by \<open>FlipAllAction\<close>. For a constraint that listens as
  \<open>Post\<close> set it up (and \<open>Post\<close> of a constraint that never listened before sets
  it up so), \<open>StopListening\<close> leaves it listening on no atom. \<open>FlipAllAction\<close>
  goes through the actions in list order, round \<open>i\<close> flipping action \<open>i\<close> before round
  \<open>i + 1\<close>, and when it returns every action is flipped. From a state in which the
  constraint listens nowhere, no call of the cascade makes it listen again or changes
  its counter: a call of its \<open>Flip\<close> would add one to the counter, so there is none.
  The call always comes to an outcome.
\<close>

theorem SumTriggerAction_fires_and_leaves:
  "(sta_at s this = Some t \<and> sint (sta_sum t + 1) \<ge> sint (sta_constant t) \<and> listens_as_posted s this \<longrightarrow>
      (case SumTriggerAction_StopListening (put_sta s this (t\<lparr>sta_sum := sta_sum t + 1\<rparr>)) this of
         Inl e \<Rightarrow> SumTriggerAction_Flip (Suc n) s this index = Some (Inl e)
       | Inr s2 \<Rightarrow>
           not_listening s2 this
           \<and> SumTriggerAction_Flip (Suc n) s this index = FlipAllAction n s2 this))
   \<and> (sta_at s0 this = Some t0 \<and> i < length (sta_actions t0) \<longrightarrow>
        run (Suc n) s0 (FlipAllAction_call this i)
          = and_then (Store_Flip n s0 (sta_actions t0 ! i))
              (\<lambda>s'. run n s' (FlipAllAction_call this (i + 1))))
   \<and> (sta_at s0 this = Some t0 \<and> FlipAllAction n s0 this = Some (Inr s') \<and> v \<in> set (sta_actions t0) \<longrightarrow>
        Store_IsFlipped (store s') v = Inr True)
   \<and> (not_listening s1 this \<and> entered_from s1 c \<and> run m s1 c = Some out \<longrightarrow>
        not_listening (final_state out) this \<and> sta_at (final_state out) this = sta_at s1 this)
   \<and> (\<exists>fuel result. SumTriggerAction_Flip fuel s this index = Some result)
   \<and> (never_listened s3 this \<and> SumTriggerAction_Post s3 this = Inr s4 \<longrightarrow>
        listens_as_posted s4 this)"
proof (intro conjI impI)
  assume h: "sta_at s this = Some t \<and> sint (sta_sum t + 1) \<ge> sint (sta_constant t) \<and> listens_as_posted s this"
  let ?s1 = "put_sta s this (t\<lparr>sta_sum := sta_sum t + 1\<rparr>)"
  from h have lp: "listens_as_posted ?s1 this" by (simp add: listens_as_posted_put_sta)
  show "case SumTriggerAction_StopListening ?s1 this of
         Inl e \<Rightarrow> SumTriggerAction_Flip (Suc n) s this index = Some (Inl e)
       | Inr s2 \<Rightarrow>
           not_listening s2 this
           \<and> SumTriggerAction_Flip (Suc n) s this index = FlipAllAction n s2 this"
  proof (cases "SumTriggerAction_StopListening ?s1 this")
    case (Inl e)
    with h show ?thesis by (simp add: SumTriggerAction_Flip_Suc)
  next
    case (Inr s2)
    from StopListening_clears [OF lp Inr] have "not_listening s2 this" .
    with h Inr show ?thesis by (simp add: SumTriggerAction_Flip_Suc)
  qed
next
  assume "sta_at s0 this = Some t0 \<and> i < length (sta_actions t0)"
  then show "run (Suc n) s0 (FlipAllAction_call this i)
          = and_then (Store_Flip n s0 (sta_actions t0 ! i))
              (\<lambda>s'. run n s' (FlipAllAction_call this (i + 1)))"
    by (simp add: Store_Flip_def)
next
  assume h: "sta_at s0 this = Some t0 \<and> FlipAllAction n s0 this = Some (Inr s')
      \<and> v \<in> set (sta_actions t0)"
  then obtain j where j: "j < length (sta_actions t0)" "sta_actions t0 ! j = v"
    by (auto simp: in_set_conv_nth)
  from h have "run n s0 (FlipAllAction_call this 0) = Some (Inr s')"
    by (simp add: FlipAllAction_def)
  from FlipAllAction_flips [OF this _ _ j(1)] h j(2)
  show "Store_IsFlipped (store s') v = Inr True" by auto
next
  assume h: "not_listening s1 this \<and> entered_from s1 c \<and> run m s1 c = Some out"
  then show "not_listening (final_state out) this" using run_not_listening by blast
  from h show "sta_at (final_state out) this = sta_at s1 this" using run_not_listening by blast
next
  show "\<exists>fuel result. SumTriggerAction_Flip fuel s this index = Some result"
    unfolding SumTriggerAction_Flip_def by (rule cascade_halts)
next
  assume "never_listened s3 this \<and> SumTriggerAction_Post s3 this = Inr s4"
  then show "listens_as_posted s4 this"
    using Post_listens_as_posted by blast
qed

theorem SumTriggerAction_fires_and_leaves_witness:
  "sta_at (final_state (the (Store_Flip 10 two_of_three 1))) 0
     = Some (SumTriggerAction_new [1, 2, 3] 2 [4, 5]\<lparr>sta_sum := 1\<rparr>)
   \<and> listens_as_posted (final_state (the (Store_Flip 10 two_of_three 1))) 0
   \<and> not_listening
        (projr (SumTriggerAction_StopListening
           (put_sta (final_state (the (Store_Flip 10 two_of_three 1))) 0
              (SumTriggerAction_new [1, 2, 3] 2 [4, 5]\<lparr>sta_sum := 2\<rparr>)) 0)) 0
   \<and> SumTriggerAction_Flip (Suc 10) (final_state (the (Store_Flip 10 two_of_three 1))) 0 2
       = FlipAllAction 10
           (projr (SumTriggerAction_StopListening
              (put_sta (final_state (the (Store_Flip 10 two_of_three 1))) 0
                 (SumTriggerAction_new [1, 2, 3] 2 [4, 5]\<lparr>sta_sum := 2\<rparr>)) 0)) 0
   \<and> Store_IsFlipped
        (store (final_state (the (FlipAllAction 10
           (projr (SumTriggerAction_StopListening
              (put_sta (final_state (the (Store_Flip 10 two_of_three 1))) 0
                 (SumTriggerAction_new [1, 2, 3] 2 [4, 5]\<lparr>sta_sum := 2\<rparr>)) 0)) 0)))) 5
       = Inr True
   \<and> sta_at
        (final_state (the (Store_Flip 10
           (final_state (the (Store_Flip 10
              (final_state (the (Store_Flip 10 two_of_three 1))) 2))) 3))) 0
       = sta_at (final_state (the (Store_Flip 10
              (final_state (the (Store_Flip 10 two_of_three 1))) 2))) 0
   \<and> map_option sta_sum (sta_at (final_state (the (Store_Flip 10
              (final_state (the (Store_Flip 10 two_of_three 1))) 2))) 0) = Some 2
   \<and> never_listened
        \<lparr>store = Store_with_atoms [7, 8, 9, 10, 11], slc_heap = [],
         sta_heap = [SumTriggerAction_new [1, 2, 3] 2 [4, 5]]\<rparr> 0
   \<and> listens_as_posted two_of_three 0"
proof -
  let ?pre = "\<lparr>store = Store_with_atoms [7, 8, 9, 10, 11], slc_heap = [],
         sta_heap = [SumTriggerAction_new [1, 2, 3] 2 [4, 5]]\<rparr>"
  let ?sA = "final_state (the (Store_Flip 10 two_of_three 1))"
  let ?t = "SumTriggerAction_new [1, 2, 3] 2 [4, 5]\<lparr>sta_sum := 1\<rparr>"
  let ?t2 = "SumTriggerAction_new [1, 2, 3] 2 [4, 5]\<lparr>sta_sum := 2\<rparr>"
  let ?s2 = "projr (SumTriggerAction_StopListening (put_sta ?sA 0 ?t2) 0)"
  let ?s3 = "final_state (the (FlipAllAction 10 ?s2 0))"
  let ?sB = "final_state (the (Store_Flip 10 ?sA 2))"
  let ?out = "the (Store_Flip 10 ?sB 3)"
  have a: "sta_at ?sA 0 = Some ?t" by code_simp
  have b: "sint (sta_sum ?t + 1) \<ge> sint (sta_constant ?t)" by code_simp
  have c: "listens_as_posted ?sA 0" by code_simp
  have d: "\<not> isl (SumTriggerAction_StopListening (put_sta ?sA 0 ?t2) 0)" by code_simp
  have d': "?t\<lparr>sta_sum := sta_sum ?t + 1\<rparr> = ?t2" by code_simp
  have e: "sta_at ?s2 0 = Some ?t2" by code_simp
  have f: "FlipAllAction 10 ?s2 0 = Some (Inr ?s3)" by code_simp
  have g: "(5::int) \<in> set (sta_actions ?t2)" by code_simp
  have h: "not_listening ?sB 0" by code_simp
  have i: "run 10 ?sB (Store_Flip_call 3) = Some ?out" by code_simp
  have j: "entered_from ?sB (Store_Flip_call 3)" by simp
  have k: "map_option sta_sum (sta_at ?sB 0) = Some 2" by code_simp
  have l: "Store_Flip 10 ?sB 3 = run 10 ?sB (Store_Flip_call 3)" by (simp add: Store_Flip_def)
  have p1: "never_listened ?pre 0" by code_simp
  have p2: "SumTriggerAction_Post ?pre 0 = Inr two_of_three" by code_simp
  note T = SumTriggerAction_fires_and_leaves [of ?sA 0 ?t 10 2 ?s2 ?t2 0 ?s3 5 ?sB
      "Store_Flip_call 3" 10 ?out ?pre two_of_three, unfolded d' l [symmetric]]
  from T p1 p2 have fourth: "listens_as_posted two_of_three 0" by blast
  from T a b c
  have "case SumTriggerAction_StopListening (put_sta ?sA 0 ?t2) 0 of
          Inl e \<Rightarrow> SumTriggerAction_Flip (Suc 10) ?sA 0 2 = Some (Inl e)
        | Inr s2 \<Rightarrow> not_listening s2 0
            \<and> SumTriggerAction_Flip (Suc 10) ?sA 0 2 = FlipAllAction 10 s2 0"
    by blast
  with d have first: "not_listening ?s2 0
      \<and> SumTriggerAction_Flip (Suc 10) ?sA 0 2 = FlipAllAction 10 ?s2 0"
    by (cases "SumTriggerAction_StopListening (put_sta ?sA 0 ?t2) 0") simp_all
  from T e f g have second: "Store_IsFlipped (store ?s3) 5 = Inr True" by blast
  from T h i j l have third: "sta_at (final_state ?out) 0 = sta_at ?sB 0" by metis
  from a c first second third fourth k p1 show ?thesis by blast
qed

end
